theory Spec2Isabelle
  imports Main "HOL-Library.AList" "HOL-Library.Char_ord" "HOL-Library.List_Lexorder"
begin

section \<open>Object records and keys\<close>

text \<open>
  An entry of a bucket listing, as \<^verbatim>\<open>list_objects_v2\<close> returns it: the dictionary
  fields \<^verbatim>\<open>obj['Key']\<close> and \<^verbatim>\<open>obj['Size']\<close>.
\<close>

datatype s3_object = S3Object (Key: string) (Size: nat)

text \<open>
  \<^verbatim>\<open>obj_key.split('/')\<close>: the segments between the slashes. The result is never
  empty; the empty key gives one empty segment.
\<close>

fun split_slash :: "string \<Rightarrow> string list" where
  "split_slash [] = [[]]"
| "split_slash (c # cs) =
     (if c = CHR ''/'' then [] # split_slash cs
      else (case split_slash cs of [] \<Rightarrow> [[c]] | w # ws \<Rightarrow> (c # w) # ws))"

text \<open>\<^verbatim>\<open>os.path.basename\<close>: what follows the last slash.\<close>

definition basename :: "string \<Rightarrow> string" where
  "basename k = last (split_slash k)"

text \<open>The listing of the scenarios.\<close>

definition scenario_listing :: "s3_object list" where
  "scenario_listing = [S3Object ''a/b.txt'' 10, S3Object ''a/c/d.txt'' 20, S3Object ''root.txt'' 5]"

section \<open>The tree builder\<close>

text \<open>
  A folder is the dictionary \<^verbatim>\<open>{"files": [...], "folders": {...}}\<close>. A file entry is
  \<^verbatim>\<open>{'key': obj_key, 'size': obj_size}\<close>: it holds the full key. A dictionary from
  folder names to folders is an association list in insertion order; assigning to a
  key that is present keeps its position, a new key goes to the end.
\<close>

type_synonym file_entry = "string \<times> nat"

datatype node = Node (files: "file_entry list") (folders: "(string \<times> node) list")

type_synonym forest = "(string \<times> node) list"

definition root_files_key :: string where
  "root_files_key = ''_root_files''"

text \<open>
  The first loop of \<^verbatim>\<open>build_tree\<close> (over \<^verbatim>\<open>parts[:-1]\<close>): a folder that is missing is
  created empty, and the walk goes on in its \<^verbatim>\<open>"folders"\<close>.
\<close>

fun ensure_chain :: "string list \<Rightarrow> forest \<Rightarrow> forest" where
  "ensure_chain [] cur = cur"
| "ensure_chain (part # rest) cur =
     (let n = (case map_of cur part of None \<Rightarrow> Node [] [] | Some n \<Rightarrow> n)
      in AList.update part (Node (files n) (ensure_chain rest (folders n))) cur)"

text \<open>
  The second walk, from the root again over \<^verbatim>\<open>parts[:-2]\<close>, where
  \<^verbatim>\<open>current[part]\<close> raises KeyError on a missing folder (the value None here); then
  the folder \<^verbatim>\<open>parts[-2]\<close> is created when missing and the entry appended to its files.
\<close>

fun add_file :: "string list \<Rightarrow> string \<Rightarrow> file_entry \<Rightarrow> forest \<Rightarrow> forest option" where
  "add_file [] d e cur =
     (let n = (case map_of cur d of None \<Rightarrow> Node [] [] | Some n \<Rightarrow> n)
      in Some (AList.update d (Node (files n @ [e]) (folders n)) cur))"
| "add_file (part # rest) d e cur =
     (case map_of cur part of
        None \<Rightarrow> None
      | Some n \<Rightarrow>
          (case add_file rest d e (folders n) of
             None \<Rightarrow> None
           | Some sub \<Rightarrow> Some (AList.update part (Node (files n) sub) cur)))"

text \<open>
  A key without a slash: \<^verbatim>\<open>tree["_root_files"] = tree.get("_root_files", {...})\<close> and
  the append to its files.
\<close>

definition add_root_file :: "file_entry \<Rightarrow> forest \<Rightarrow> forest" where
  "add_root_file e tree =
     (let n = (case map_of tree root_files_key of None \<Rightarrow> Node [] [] | Some n \<Rightarrow> n)
      in AList.update root_files_key (Node (files n @ [e]) (folders n)) tree)"

text \<open>The body of the loop over the objects.\<close>

definition insert_object :: "s3_object \<Rightarrow> forest \<Rightarrow> forest option" where
  "insert_object obj tree =
     (let parts = split_slash (Key obj);
          tree1 = ensure_chain (butlast parts) tree
      in if last parts \<noteq> [] then
           (if length parts > 1 then
              add_file (butlast (butlast parts)) (last (butlast parts)) (Key obj, Size obj) tree1
            else Some (add_root_file (Key obj, Size obj) tree1))
         else Some tree1)"

fun build_from :: "s3_object list \<Rightarrow> forest \<Rightarrow> forest option" where
  "build_from [] tree = Some tree"
| "build_from (obj # objs) tree =
     (case insert_object obj tree of None \<Rightarrow> None | Some tree1 \<Rightarrow> build_from objs tree1)"

definition build_tree :: "s3_object list \<Rightarrow> forest option" where
  "build_tree objects = build_from objects []"

text \<open>
  Where an entry is looked for: the files of the folder reached by walking a chain of
  folder names from the top-level dictionary.
\<close>

fun has_file :: "string list \<Rightarrow> file_entry \<Rightarrow> forest \<Rightarrow> bool" where
  "has_file [] e cur = False"
| "has_file [d] e cur = (case map_of cur d of None \<Rightarrow> False | Some n \<Rightarrow> e \<in> set (files n))"
| "has_file (part # rest) e cur =
     (case map_of cur part of None \<Rightarrow> False | Some n \<Rightarrow> has_file rest e (folders n))"

text \<open>
  The chain a key implies: all segments but the last; for a key of one segment the
  reserved top-level entry that holds the files of the root.
\<close>

definition chain_of :: "string \<Rightarrow> string list" where
  "chain_of k = (let parts = split_slash k in
                 if length parts > 1 then butlast parts else [root_files_key])"

text \<open>Counting: all folder dictionaries of a forest, and all file entries in them.\<close>

fun num_nodes :: "forest \<Rightarrow> nat" where
  "num_nodes [] = 0"
| "num_nodes ((k, Node fs sub) # rest) = 1 + num_nodes sub + num_nodes rest"

fun num_files :: "forest \<Rightarrow> nat" where
  "num_files [] = 0"
| "num_files ((k, Node fs sub) # rest) = length fs + num_files sub + num_files rest"

text \<open>
  The folders of a tree: every folder dictionary except a top-level entry under the
  reserved key, which is the container of the root's files and not a folder.
\<close>

definition num_reserved :: "forest \<Rightarrow> nat" where
  "num_reserved tree = length (filter (\<lambda>p. fst p = root_files_key) tree)"

definition num_folders :: "forest \<Rightarrow> nat" where
  "num_folders tree = num_nodes tree - num_reserved tree"

text \<open>A chain of folder names that can be walked from a dictionary without a KeyError.\<close>

fun has_chain :: "string list \<Rightarrow> forest \<Rightarrow> bool" where
  "has_chain [] cur = True"
| "has_chain (part # rest) cur =
     (case map_of cur part of None \<Rightarrow> False | Some n \<Rightarrow> has_chain rest (folders n))"

section \<open>The tree renderer\<close>

text \<open>
  \<^verbatim>\<open>render_tree\<close> builds one HTML string. The model keeps its structure: a list item
  per file (the key in the link, the base name shown, the size that \<^verbatim>\<open>format_size\<close>
  prints) and a list item per folder (name, path of the download and info actions, the
  folder's files sorted by key, and the nested list when the folder has subfolders).
  The markup text, the element ids built from \<^verbatim>\<open>prefix\<close> and \<^verbatim>\<open>level\<close>, and the
  floating-point text of the sizes are not modelled.
\<close>

datatype html = FileItem string string nat | FolderItem string string "html list" "html list option"

definition file_item :: "file_entry \<Rightarrow> html" where
  "file_item f = FileItem (fst f) (basename (fst f)) (snd f)"

text \<open>
  First the files under the reserved key, in stored order; then every entry of
  \<^verbatim>\<open>sorted(tree.items())\<close> except the one under the reserved key. The recursive call
  on \<^verbatim>\<open>content["folders"]\<close> treats the reserved key the same way at every level.
\<close>

function render_tree :: "forest \<Rightarrow> string \<Rightarrow> html list" where
  "render_tree tree parent_path =
     (case map_of tree root_files_key of
        None \<Rightarrow> []
      | Some c \<Rightarrow> map file_item (files c))
     @ map (\<lambda>(folder_name, content).
              let folder_path = (if parent_path \<noteq> [] then parent_path @ ''/'' @ folder_name
                                 else folder_name)
              in FolderItem folder_name folder_path
                   (map file_item (sort_key fst (files content)))
                   (if folders content \<noteq> [] then Some (render_tree (folders content) folder_path)
                    else None))
         (filter (\<lambda>p. fst p \<noteq> root_files_key) (sort_key fst tree))"
  by pat_completeness auto
termination
proof (relation "measure (\<lambda>(tree, parent_path). num_nodes tree)")
  show "wf (measure (\<lambda>(tree, parent_path). num_nodes tree))" by simp
next
  fix tree :: forest and parent_path :: string and x :: "string \<times> node"
    and folder_name content folder_path
  assume x: "x \<in> set (filter (\<lambda>p. fst p \<noteq> root_files_key) (sort_key fst tree))"
    and eq: "(folder_name, content) = x"
  have mem: "(k, n) \<in> set t \<Longrightarrow> num_nodes (folders n) < num_nodes t" for k n t
    by (induction t rule: num_nodes.induct) auto
  from x eq have "(folder_name, content) \<in> set tree" by simp
  from mem [OF this]
  show "((folders content, folder_path), (tree, parent_path))
          \<in> measure (\<lambda>(tree, parent_path). num_nodes tree)" by simp
qed

declare render_tree.simps [simp del]

text \<open>The names of all folder items of a rendering, nested ones included.\<close>

fun rendered_folders :: "html \<Rightarrow> string list" where
  "rendered_folders (FileItem k f s) = []"
| "rendered_folders (FolderItem name p fs sub) =
     name # concat (map rendered_folders fs)
       @ (case sub of None \<Rightarrow> [] | Some items \<Rightarrow> concat (map rendered_folders items))"



section \<open>The storage collaborator and the listing paginator\<close>

text \<open>
  The storage client is not part of the program; it is a parameter. Its answers to
  the successive \<^verbatim>\<open>list_objects_v2\<close> calls for a prefix are a list, consumed in
  order: an answer is a failure (the call raises) or a page of records (the
  \<^verbatim>\<open>Contents\<close> of the response), and the response is truncated exactly when
  another answer follows (no answer at all stands for one response without
  \<^verbatim>\<open>Contents\<close>). \<^verbatim>\<open>get_object\<close> gives the bytes of a key, or None when the
  call raises.
\<close>

type_synonym bytes = "nat list"

datatype list_response = ListFailed string | ListPage "s3_object list"

record storage =
  list_objects_v2 :: "string \<Rightarrow> list_response list"
  get_object :: "string \<Rightarrow> bytes option"

text \<open>
  The \<^verbatim>\<open>while True\<close> loop of the three endpoints: the pages are appended until the
  response is not truncated; an exception leaves the loop with its message.
\<close>

fun paginate :: "list_response list \<Rightarrow> s3_object list \<Rightarrow> string + s3_object list" where
  "paginate [] objects = Inr objects"
| "paginate (ListFailed msg # later) objects = Inl msg"
| "paginate (ListPage page_objects # later) objects = paginate later (objects @ page_objects)"

text \<open>\<^verbatim>\<open>if not folder_path.endswith('/'): folder_path += '/'\<close>\<close>

definition normalize_prefix :: "string \<Rightarrow> string" where
  "normalize_prefix folder_path =
     (if folder_path \<noteq> [] \<and> last folder_path = CHR ''/'' then folder_path
      else folder_path @ ''/'')"

text \<open>\<^verbatim>\<open>folder_path.rstrip('/')\<close>\<close>

definition rstrip_slash :: "string \<Rightarrow> string" where
  "rstrip_slash s = rev (dropWhile (\<lambda>c. c = CHR ''/'') (rev s))"

text \<open>
  A bucket holding the given records, each with as many zero bytes as its size says,
  whose prefix listing comes in one page: the records whose key starts with the prefix.
\<close>

definition bucket_storage :: "s3_object list \<Rightarrow> storage" where
  "bucket_storage bucket =
     \<lparr> list_objects_v2 =
         (\<lambda>prefix. [ListPage (filter (\<lambda>obj. take (length prefix) (Key obj) = prefix) bucket)]),
       get_object =
         (\<lambda>k. map_option (\<lambda>obj. replicate (Size obj) 0) (find (\<lambda>obj. Key obj = k) bucket)) \<rparr>"

section \<open>Folder information\<close>

text \<open>
  The statistics loop of \<^verbatim>\<open>folder_info\<close> over the listing, with its three
  accumulators \<^verbatim>\<open>total_size\<close>, \<^verbatim>\<open>file_count\<close> and \<^verbatim>\<open>subfolders\<close>.
\<close>

fun folder_stats ::
  "string \<Rightarrow> s3_object list \<Rightarrow> nat \<times> nat \<times> string set \<Rightarrow> nat \<times> nat \<times> string set" where
  "folder_stats folder_path [] acc = acc"
| "folder_stats folder_path (obj # objs) (total_size, file_count, subfolders) =
     (if Key obj = folder_path then folder_stats folder_path objs (total_size, file_count, subfolders)
      else
        (let relative_path = drop (length folder_path) (Key obj) in
         if CHR ''/'' \<in> set relative_path then
           folder_stats folder_path objs
             (total_size + Size obj, file_count,
              insert (case split_slash relative_path of [] \<Rightarrow> [] | w # ws \<Rightarrow> w) subfolders)
         else if relative_path \<noteq> [] then
           folder_stats folder_path objs (total_size + Size obj, file_count + 1, subfolders)
         else folder_stats folder_path objs (total_size + Size obj, file_count, subfolders)))"

text \<open>
  The JSON object of the answer, without its \<^verbatim>\<open>total_size\<close> field (the text that
  \<^verbatim>\<open>format_size\<close> prints from floating-point divisions). \<^verbatim>\<open>file_count\<close> is
  \<^verbatim>\<open>len(objects)\<close>, not the loop's counter.
\<close>

record folder_info_json =
  info_path :: string
  info_file_count :: nat
  info_total_size_bytes :: nat
  info_subfolder_count :: nat

text \<open>The endpoint: the answer, or the message of the error response (status 500).\<close>

definition folder_info :: "storage \<Rightarrow> string \<Rightarrow> string + folder_info_json" where
  "folder_info st folder_path0 =
     (let folder_path = normalize_prefix folder_path0 in
      case paginate (list_objects_v2 st folder_path) [] of
        Inl msg \<Rightarrow> Inl msg
      | Inr objects \<Rightarrow>
          (case folder_stats folder_path objects (0, 0, {}) of
             (total_size, file_count, subfolders) \<Rightarrow>
               Inr \<lparr> info_path = rstrip_slash folder_path,
                     info_file_count = length objects,
                     info_total_size_bytes = total_size,
                     info_subfolder_count = card subfolders \<rparr>))"


section \<open>Archives and the task registry\<close>

text \<open>
  The archive being written: the compression mode given to \<^verbatim>\<open>zipfile.ZipFile\<close>, the
  members written by \<^verbatim>\<open>writestr\<close> in order, and whether the \<^verbatim>\<open>with\<close> block has
  been left, which closes the archive and writes its directory.
\<close>

datatype compression = ZIP_STORED | ZIP_DEFLATED

record zip_file =
  zcompression :: compression
  zentries :: "(string \<times> bytes) list"
  zclosed :: bool

text \<open>
  An entry of the global dictionary \<^verbatim>\<open>download_tasks\<close>: the keys \<^verbatim>\<open>'cancelled'\<close>
  and \<^verbatim>\<open>'zip_buffer'\<close> (None until the archive is stored) and the key
  \<^verbatim>\<open>'folder_name'\<close>, absent until it is stored.
\<close>

record task =
  cancelled :: bool
  zip_buffer :: "zip_file option"
  folder_name :: "string option"

type_synonym registry = "string \<rightharpoonup> task"

text \<open>\<^verbatim>\<open>download_tasks.get(task_id, {}).get('cancelled', False)\<close>\<close>

definition is_cancelled :: "registry \<Rightarrow> string \<Rightarrow> bool" where
  "is_cancelled reg task_id = (case reg task_id of None \<Rightarrow> False | Some t \<Rightarrow> cancelled t)"

text \<open>The archive a task holds, if the task exists and has one.\<close>

definition buffer_of :: "registry \<Rightarrow> string \<Rightarrow> zip_file option" where
  "buffer_of reg task_id = (case reg task_id of None \<Rightarrow> None | Some t \<Rightarrow> zip_buffer t)"

text \<open>\<^verbatim>\<open>cancel_download\<close>: the flag is set when the task exists; otherwise status 404.\<close>

datatype cancel_response = CancelOk | CancelNotFound

definition cancel_download :: "string \<Rightarrow> registry \<Rightarrow> cancel_response \<times> registry" where
  "cancel_download task_id reg =
     (case reg task_id of
        Some t \<Rightarrow> (CancelOk, reg(task_id \<mapsto> t\<lparr>cancelled := True\<rparr>))
      | None \<Rightarrow> (CancelNotFound, reg))"

text \<open>
  \<^verbatim>\<open>get_zip\<close>: "Download not found or expired" (404), "Download not ready" (404), or
  the attachment with its file name. Only the last case starts a cleanup thread.
\<close>

datatype zip_response = NotFound | NotReady | SendFile string zip_file

definition get_zip :: "string \<Rightarrow> registry \<Rightarrow> zip_response" where
  "get_zip task_id reg =
     (case reg task_id of
        None \<Rightarrow> NotFound
      | Some t \<Rightarrow>
          (case zip_buffer t of
             None \<Rightarrow> NotReady
           | Some z \<Rightarrow>
               SendFile ((case folder_name t of None \<Rightarrow> ''download'' | Some n \<Rightarrow> n) @ ''.zip'') z))"

section \<open>The archive generator\<close>

text \<open>
  The events of the stream: \<^verbatim>\<open>progress\<close> with \<^verbatim>\<open>current\<close> and \<^verbatim>\<open>total\<close>,
  \<^verbatim>\<open>complete\<close> with \<^verbatim>\<open>file_count\<close>, \<^verbatim>\<open>cancelled\<close>, and \<^verbatim>\<open>error\<close> with its message.
\<close>

datatype event = Progress nat nat | Complete nat | Cancelled | Failed string

text \<open>
  The generator \<^verbatim>\<open>generate\<close> runs beside the other requests, so it is a machine that
  takes one step at a time; a step holds at most one access to \<^verbatim>\<open>download_tasks\<close>.
  Its control points: before the listing (line 266); before the task is registered
  (line 305); at the head of the loop with the records still to process, the empty
  list standing for the end of the \<^verbatim>\<open>with\<close> block and the re-check of line 347;
  before the archive is stored (line 355); before the folder name is stored (line 356);
  and the end.
\<close>

datatype gen_pc =
    AtListing
  | AtInit
  | AtLoop "s3_object list"
  | AtStoreBuffer
  | AtStoreName
  | AtEnd

record gen_state =
  pc :: gen_pc
  objects :: "s3_object list"
  zip :: zip_file
  file_count :: nat
  total_bytes :: nat
  emitted :: "event list"

text \<open>The request: the storage, the path of the route and the \<^verbatim>\<open>task_id\<close> argument.\<close>

record request =
  store :: storage
  folder_path :: string
  task_id :: string

text \<open>
  \<^verbatim>\<open>str(e)\<close> for the KeyError that \<^verbatim>\<open>download_tasks[task_id]\<close> raises: the key in
  quotes (the escapes that \<^verbatim>\<open>repr\<close> adds to unusual characters are not modelled).
\<close>

definition key_error_text :: "string \<Rightarrow> string" where
  "key_error_text k = CHR 0x27 # k @ [CHR 0x27]"

definition gen_step :: "request \<Rightarrow> registry \<Rightarrow> gen_state \<Rightarrow> registry \<times> gen_state" where
  "gen_step rq reg g =
     (let folder_path_normalized = normalize_prefix (folder_path rq) in
      case pc g of
        AtListing \<Rightarrow>
          (case paginate (list_objects_v2 (store rq) folder_path_normalized) [] of
             Inl msg \<Rightarrow> (reg, g\<lparr>pc := AtEnd, emitted := emitted g @ [Failed msg]\<rparr>)
           | Inr objs \<Rightarrow>
               if length objs = 0 then
                 (reg, g\<lparr>pc := AtEnd,
                         emitted := emitted g @ [Failed ''No files found in folder'']\<rparr>)
               else (reg, g\<lparr>pc := AtInit, objects := objs\<rparr>))
      | AtInit \<Rightarrow>
          (reg(task_id rq \<mapsto> \<lparr>cancelled = False, zip_buffer = None, folder_name = None\<rparr>),
           g\<lparr>pc := AtLoop (objects g),
             zip := \<lparr>zcompression = (if length (objects g) > 100 then ZIP_STORED else ZIP_DEFLATED),
                     zentries = [], zclosed = False\<rparr>,
             file_count := 0, total_bytes := 0\<rparr>)
      | AtLoop (obj # rest) \<Rightarrow>
          if is_cancelled reg (task_id rq) then
            (reg, g\<lparr>pc := AtEnd, zip := (zip g)\<lparr>zclosed := True\<rparr>,
                    emitted := emitted g @ [Cancelled]\<rparr>)
          else if Key obj = folder_path_normalized then (reg, g\<lparr>pc := AtLoop rest\<rparr>)
          else
            (case get_object (store rq) (Key obj) of
               None \<Rightarrow> (reg, g\<lparr>pc := AtLoop rest\<rparr>)
             | Some file_data \<Rightarrow>
                 (let relative_path = drop (length folder_path_normalized) (Key obj) in
                  if relative_path \<noteq> [] then
                    (reg, g\<lparr>pc := AtLoop rest,
                            zip := (zip g)\<lparr>zentries := zentries (zip g) @ [(relative_path, file_data)]\<rparr>,
                            file_count := file_count g + 1,
                            total_bytes := total_bytes g + length file_data,
                            emitted := emitted g @ [Progress (file_count g + 1) (length (objects g))]\<rparr>)
                  else (reg, g\<lparr>pc := AtLoop rest\<rparr>)))
      | AtLoop [] \<Rightarrow>
          if is_cancelled reg (task_id rq) then
            (reg, g\<lparr>pc := AtEnd, zip := (zip g)\<lparr>zclosed := True\<rparr>,
                    emitted := emitted g @ [Cancelled]\<rparr>)
          else (reg, g\<lparr>pc := AtStoreBuffer, zip := (zip g)\<lparr>zclosed := True\<rparr>\<rparr>)
      | AtStoreBuffer \<Rightarrow>
          (case reg (task_id rq) of
             None \<Rightarrow> (reg, g\<lparr>pc := AtEnd, emitted := emitted g @ [Failed (key_error_text (task_id rq))]\<rparr>)
           | Some t \<Rightarrow> (reg(task_id rq \<mapsto> t\<lparr>zip_buffer := Some (zip g)\<rparr>), g\<lparr>pc := AtStoreName\<rparr>))
      | AtStoreName \<Rightarrow>
          (case reg (task_id rq) of
             None \<Rightarrow> (reg, g\<lparr>pc := AtEnd, emitted := emitted g @ [Failed (key_error_text (task_id rq))]\<rparr>)
           | Some t \<Rightarrow>
               (reg(task_id rq \<mapsto> t\<lparr>folder_name := Some (basename (rstrip_slash (folder_path rq)))\<rparr>),
                g\<lparr>pc := AtEnd, emitted := emitted g @ [Complete (file_count g)]\<rparr>))
      | AtEnd \<Rightarrow> (reg, g))"

section \<open>The requests running side by side\<close>

text \<open>
  The process: the dictionary of tasks; the generator under observation, which serves
  the request that the functions below take as a parameter; the other runs of
  \<^verbatim>\<open>generate\<close>, each with its own request (a run may use any task id, the id of the
  observed run included: \<^verbatim>\<open>task_id\<close> comes from the query string and defaults to
  \<^verbatim>\<open>'unknown'\<close>) and its own variables; the cleanup threads that \<^verbatim>\<open>get_zip\<close> has
  started, each with the time at which its \<^verbatim>\<open>time.sleep(60)\<close> ends; and a clock. A
  run that starts later is a run that waits before its listing, where it has had no
  effect yet. An interleaving is a list of actions: a step of the observed generator, a
  step of one of the other runs, a cancel request, a zip request, a cleanup thread of a
  task running on after its sleep, and the clock advancing by one unit. The membership
  test and the access that follows it in \<^verbatim>\<open>cancel_download\<close>, \<^verbatim>\<open>get_zip\<close> and
  \<^verbatim>\<open>cleanup\<close> are one action each. A cleanup thread cannot run before its sleep is
  over and may run at any time after. The consumer of a stream is taken to read it to
  its end.
\<close>

record system =
  tasks :: registry
  gen :: gen_state
  others :: "(request \<times> gen_state) list"
  sleepers :: "(string \<times> nat) list"
  clock :: nat

datatype action =
    GenStep
  | OtherStep nat
  | CancelReq string
  | GetZipReq string
  | CleanupWake string
  | Tick

definition eviction_delay :: nat where
  "eviction_delay = 60"

text \<open>The first cleanup thread of a task whose sleep is over.\<close>

definition awake :: "string \<Rightarrow> system \<Rightarrow> (string \<times> nat) option" where
  "awake tid s = find (\<lambda>th. fst th = tid \<and> snd th \<le> clock s) (sleepers s)"

fun apply_action :: "request \<Rightarrow> action \<Rightarrow> system \<Rightarrow> system" where
  "apply_action rq GenStep s =
     (case gen_step rq (tasks s) (gen s) of (reg, g) \<Rightarrow> s\<lparr>tasks := reg, gen := g\<rparr>)"
| "apply_action rq (OtherStep i) s =
     (if i < length (others s) then
        (case gen_step (fst (others s ! i)) (tasks s) (snd (others s ! i)) of
           (reg, g) \<Rightarrow> s\<lparr>tasks := reg, others := (others s)[i := (fst (others s ! i), g)]\<rparr>)
      else s)"
| "apply_action rq (CancelReq tid) s = s\<lparr>tasks := snd (cancel_download tid (tasks s))\<rparr>"
| "apply_action rq (GetZipReq tid) s =
     (case get_zip tid (tasks s) of
        SendFile name z \<Rightarrow> s\<lparr>sleepers := sleepers s @ [(tid, clock s + eviction_delay)]\<rparr>
      | _ \<Rightarrow> s)"
| "apply_action rq (CleanupWake tid) s =
     (case awake tid s of
        None \<Rightarrow> s
      | Some th \<Rightarrow> s\<lparr>tasks := (tasks s)(tid := None), sleepers := remove1 th (sleepers s)\<rparr>)"
| "apply_action rq Tick s = s\<lparr>clock := clock s + 1\<rparr>"

fun run :: "request \<Rightarrow> action list \<Rightarrow> system \<Rightarrow> system" where
  "run rq [] s = s"
| "run rq (a # sched) s = run rq sched (apply_action rq a s)"

text \<open>A process in which the generator has not started and nothing else is going on.\<close>

definition fresh_gen :: gen_state where
  "fresh_gen = \<lparr>pc = AtListing, objects = [],
                zip = \<lparr>zcompression = ZIP_DEFLATED, zentries = [], zclosed = False\<rparr>,
                file_count = 0, total_bytes = 0, emitted = []\<rparr>"

definition idle_system :: "registry \<Rightarrow> system" where
  "idle_system reg = \<lparr>tasks = reg, gen = fresh_gen, others = [], sleepers = [], clock = 0\<rparr>"

text \<open>The same with other runs, none of which has started.\<close>

definition waiting_system :: "registry \<Rightarrow> request list \<Rightarrow> system" where
  "waiting_system reg rqs =
     \<lparr>tasks = reg, gen = fresh_gen, others = map (\<lambda>rq'. (rq', fresh_gen)) rqs,
      sleepers = [], clock = 0\<rparr>"

text \<open>The request of the scenarios: the folder a of the scenario bucket, task t1.\<close>

definition scenario_request :: request where
  "scenario_request = \<lparr>store = bucket_storage scenario_listing, folder_path = ''a'', task_id = ''t1''\<rparr>"

section \<open>The legacy download\<close>

text \<open>The loop of \<^verbatim>\<open>download_folder\<close> over the listing: no progress, no cancellation.\<close>

fun legacy_add :: "storage \<Rightarrow> string \<Rightarrow> s3_object list \<Rightarrow> zip_file \<Rightarrow> zip_file" where
  "legacy_add st fp [] z = z"
| "legacy_add st fp (obj # objs) z =
     (if Key obj = fp then legacy_add st fp objs z
      else
        (case get_object st (Key obj) of
           None \<Rightarrow> legacy_add st fp objs z
         | Some file_data \<Rightarrow>
             (let relative_path = drop (length fp) (Key obj) in
              if relative_path \<noteq> [] then
                legacy_add st fp objs (z\<lparr>zentries := zentries z @ [(relative_path, file_data)]\<rparr>)
              else legacy_add st fp objs z)))"

datatype legacy_response = LegacyNotFound | LegacyError string | LegacyFile string zip_file

definition download_folder :: "storage \<Rightarrow> string \<Rightarrow> legacy_response" where
  "download_folder st folder_path0 =
     (let fp = normalize_prefix folder_path0 in
      case paginate (list_objects_v2 st fp) [] of
        Inl msg \<Rightarrow> LegacyError msg
      | Inr objs \<Rightarrow>
          if length objs = 0 then LegacyNotFound
          else
            (let compression = (if length objs > 100 then ZIP_STORED else ZIP_DEFLATED);
                 z = legacy_add st fp objs \<lparr>zcompression = compression, zentries = [], zclosed = False\<rparr>
             in LegacyFile (basename (rstrip_slash fp) @ ''.zip'') (z\<lparr>zclosed := True\<rparr>)))"


section \<open>Invariants of the running process\<close>

text \<open>
  While the observed generator is in its loop, the task it registered holds no archive.
  This is kept by every action when no other run uses the task id (another run under
  the same id may store its own archive there).
\<close>

definition no_buffer_while_processing :: "request \<Rightarrow> system \<Rightarrow> bool" where
  "no_buffer_while_processing rq s =
     (case pc (gen s) of AtLoop objs \<Rightarrow> buffer_of (tasks s) (task_id rq) = None | _ \<Rightarrow> True)"

text \<open>
  After a cancel request that arrived while the generator was in its loop: the task is
  gone, or it is flagged and holds no archive; past the re-check the task can only be
  gone, and at the end no archive is held. Kept by every action when no other run uses
  the task id.
\<close>

definition cancel_pending :: "request \<Rightarrow> system \<Rightarrow> bool" where
  "cancel_pending rq s =
     (case pc (gen s) of
        AtListing \<Rightarrow> False
      | AtInit \<Rightarrow> False
      | AtLoop objs \<Rightarrow>
          (case tasks s (task_id rq) of None \<Rightarrow> True | Some t \<Rightarrow> cancelled t \<and> zip_buffer t = None)
      | AtStoreBuffer \<Rightarrow> tasks s (task_id rq) = None
      | AtStoreName \<Rightarrow> tasks s (task_id rq) = None
      | AtEnd \<Rightarrow> buffer_of (tasks s) (task_id rq) = None)"

text \<open>The \<^verbatim>\<open>current\<close> and \<^verbatim>\<open>total\<close> of the progress events of a stream, in order.\<close>

fun progress_of :: "event list \<Rightarrow> (nat \<times> nat) list" where
  "progress_of [] = []"
| "progress_of (Progress c t # evs) = (c, t) # progress_of evs"
| "progress_of (ev # evs) = progress_of evs"

text \<open>\<^verbatim>\<open>len(objects)\<close> of the request's listing (0 when the listing raises).\<close>

definition listing_total :: "request \<Rightarrow> nat" where
  "listing_total rq =
     (case paginate (list_objects_v2 (store rq) (normalize_prefix (folder_path rq))) [] of
        Inl msg \<Rightarrow> 0
      | Inr objs \<Rightarrow> length objs)"

text \<open>The progress events of a stream are those of the counts 1 to k, each with total t.\<close>

definition counted :: "nat \<Rightarrow> nat \<Rightarrow> event list \<Rightarrow> bool" where
  "counted k t evs = (progress_of evs = map (\<lambda>c. (c, t)) [1..<Suc k])"

definition has_complete :: "event list \<Rightarrow> bool" where
  "has_complete evs = (\<exists>n. Complete n \<in> set evs)"

definition mode_for :: "nat \<Rightarrow> compression" where
  "mode_for n = (if n > 100 then ZIP_STORED else ZIP_DEFLATED)"

text \<open>What holds of the generator's variables at each control point.\<close>

definition gen_inv :: "request \<Rightarrow> gen_state \<Rightarrow> bool" where
  "gen_inv rq g =
     (case pc g of
        AtListing \<Rightarrow> emitted g = []
      | AtInit \<Rightarrow> emitted g = [] \<and> length (objects g) = listing_total rq
      | AtLoop rest \<Rightarrow>
          length (objects g) = listing_total rq
          \<and> counted (file_count g) (listing_total rq) (emitted g)
          \<and> file_count g + length rest \<le> listing_total rq
          \<and> \<not> has_complete (emitted g)
          \<and> zcompression (zip g) = mode_for (listing_total rq)
      | AtStoreBuffer \<Rightarrow>
          counted (file_count g) (listing_total rq) (emitted g)
          \<and> file_count g \<le> listing_total rq
          \<and> \<not> has_complete (emitted g) \<and> zclosed (zip g)
          \<and> zcompression (zip g) = mode_for (listing_total rq)
      | AtStoreName \<Rightarrow>
          counted (file_count g) (listing_total rq) (emitted g)
          \<and> file_count g \<le> listing_total rq
          \<and> \<not> has_complete (emitted g) \<and> zclosed (zip g)
          \<and> zcompression (zip g) = mode_for (listing_total rq)
      | AtEnd \<Rightarrow>
          (\<exists>k \<le> listing_total rq. counted k (listing_total rq) (emitted g))
          \<and> (has_complete (emitted g) \<longrightarrow> zclosed (zip g)))"

text \<open>Two processes that differ at most in their generators.\<close>

definition same_env :: "system \<Rightarrow> system \<Rightarrow> bool" where
  "same_env s s' =
     (tasks s = tasks s' \<and> others s = others s' \<and> sleepers s = sleepers s' \<and> clock s = clock s')"

text \<open>No other run of the process uses the given task id.\<close>

definition others_foreign :: "string \<Rightarrow> system \<Rightarrow> bool" where
  "others_foreign tid s = (\<forall>p \<in> set (others s). task_id (fst p) \<noteq> tid)"

text \<open>
  The observed run has ended and left its task in the registry without an archive,
  and no other run uses its id.
\<close>

definition left_not_ready :: "request \<Rightarrow> system \<Rightarrow> bool" where
  "left_not_ready rq s =
     (pc (gen s) = AtEnd \<and> others_foreign (task_id rq) s
      \<and> (case tasks s (task_id rq) of None \<Rightarrow> False | Some t \<Rightarrow> zip_buffer t = None))"

text \<open>No run of the process, observed or other, uses the given task id.\<close>

definition unused_id :: "request \<Rightarrow> string \<Rightarrow> system \<Rightarrow> bool" where
  "unused_id rq tid s = (task_id rq \<noteq> tid \<and> others_foreign tid s)"


text \<open>A task left in the registry by an earlier run under the task id of the scenarios.\<close>

definition stale_task :: task where
  "stale_task = \<lparr>cancelled = True,
                 zip_buffer = Some \<lparr>zcompression = ZIP_STORED, zentries = [(''old.txt'', [1])], zclosed = True\<rparr>,
                 folder_name = Some ''old''\<rparr>"


text \<open>A request for the same folder under another task id.\<close>

definition other_request :: request where
  "other_request = \<lparr>store = bucket_storage scenario_listing, folder_path = ''a'', task_id = ''t2''\<rparr>"


section \<open>Properties of the tree builder\<close>

lemma split_slash_not_Nil: "split_slash s \<noteq> []"
  by (induction s) (auto split: list.splits)

lemma num_nodes_update_None:
  "map_of cur k = None \<Longrightarrow> num_nodes (AList.update k (Node fs sub) cur) = num_nodes cur + 1 + num_nodes sub"
  by (induction cur rule: num_nodes.induct) auto

lemma num_nodes_update_Some:
  "map_of cur k = Some n \<Longrightarrow>
   num_nodes (AList.update k (Node fs sub) cur) + num_nodes (folders n) = num_nodes cur + num_nodes sub"
  by (induction cur rule: num_nodes.induct) auto

lemma num_files_update_None:
  "map_of cur k = None \<Longrightarrow> num_files (AList.update k (Node fs sub) cur) = num_files cur + length fs + num_files sub"
  by (induction cur rule: num_files.induct) auto

lemma num_files_update_Some:
  "map_of cur k = Some n \<Longrightarrow>
   num_files (AList.update k (Node fs sub) cur) + length (files n) + num_files (folders n)
     = num_files cur + length fs + num_files sub"
  by (induction cur rule: num_files.induct) auto

lemma num_reserved_update:
  "num_reserved (AList.update k v cur) =
     (if map_of cur k = None \<and> k = root_files_key then num_reserved cur + 1 else num_reserved cur)"
  unfolding num_reserved_def by (induction cur) auto

lemma num_reserved_le: "num_reserved tree \<le> num_nodes tree"
  unfolding num_reserved_def by (induction tree rule: num_nodes.induct) auto

lemma ensure_chain_nodes_upper: "num_nodes (ensure_chain ps cur) \<le> num_nodes cur + length ps"
proof (induction ps arbitrary: cur)
  case Nil
  show ?case by simp
next
  case (Cons p ps)
  show ?case
  proof (cases "map_of cur p")
    case None
    have "num_nodes (ensure_chain ps []) \<le> length ps" using Cons.IH [of "[]"] by simp
    with None show ?thesis by (simp add: num_nodes_update_None)
  next
    case (Some n)
    from Cons.IH [of "folders n"] num_nodes_update_Some [OF Some, of "files n" "ensure_chain ps (folders n)"]
    show ?thesis using Some by simp
  qed
qed

lemma ensure_chain_files: "num_files (ensure_chain ps cur) = num_files cur"
proof (induction ps arbitrary: cur)
  case Nil
  show ?case by simp
next
  case (Cons p ps)
  show ?case
  proof (cases "map_of cur p")
    case None
    have "num_files (ensure_chain ps []) = 0" using Cons.IH [of "[]"] by simp
    with None show ?thesis by (simp add: num_files_update_None)
  next
    case (Some n)
    from Cons.IH [of "folders n"] num_files_update_Some [OF Some, of "files n" "ensure_chain ps (folders n)"]
    show ?thesis using Some by simp
  qed
qed

lemma ensure_chain_reserved: "num_reserved cur \<le> num_reserved (ensure_chain ps cur)"
  by (cases ps) (simp_all add: num_reserved_update Let_def)

lemma ensure_chain_reserved_nodes:
  "num_nodes (ensure_chain ps cur) - num_reserved (ensure_chain ps cur)
     \<le> (num_nodes cur - num_reserved cur) + length ps"
  using ensure_chain_nodes_upper [of ps cur] ensure_chain_reserved [of cur ps] num_reserved_le [of cur]
  by linarith

lemma has_chain_ensure_chain: "has_chain ps (ensure_chain ps cur)"
  by (induction ps arbitrary: cur) (simp_all add: Let_def update_conv')

lemma add_file_on_chain:
  "has_chain (ps @ [d]) cur \<Longrightarrow>
   \<exists>t. add_file ps d e cur = Some t \<and> num_nodes t = num_nodes cur
      \<and> num_files t = num_files cur + 1 \<and> num_reserved t = num_reserved cur
      \<and> has_file (ps @ [d]) e t"
proof (induction ps arbitrary: cur)
  case Nil
  then obtain n where n: "map_of cur d = Some n" by (auto split: option.splits)
  from num_nodes_update_Some [OF n, of "files n @ [e]" "folders n"]
       num_files_update_Some [OF n, of "files n @ [e]" "folders n"]
  show ?case using n by (simp add: num_reserved_update update_conv')
next
  case (Cons p ps)
  then obtain n where n: "map_of cur p = Some n" and ch: "has_chain (ps @ [d]) (folders n)"
    by (auto split: option.splits)
  from Cons.IH [OF ch] obtain t where t: "add_file ps d e (folders n) = Some t"
    "num_nodes t = num_nodes (folders n)" "num_files t = num_files (folders n) + 1"
    "has_file (ps @ [d]) e t" by blast
  have hf: "has_file (p # ps @ [d]) e (AList.update p (Node (files n) t) cur)"
    using t(4) by (cases "ps @ [d]") (simp_all add: update_conv')
  from num_nodes_update_Some [OF n, of "files n" t] num_files_update_Some [OF n, of "files n" t]
  show ?case using n t hf by (simp add: num_reserved_update)
qed


lemma has_file_update_None:
  "map_of cur p = None \<Longrightarrow> has_file path e cur \<Longrightarrow> has_file path e (AList.update p v cur)"
  by (induction path e cur rule: has_file.induct) (auto simp: update_conv' split: option.splits)

lemma has_file_update_Some:
  "map_of cur p = Some n \<Longrightarrow> set (files n) \<subseteq> set fs \<Longrightarrow>
   (\<And>rest. has_file rest e (folders n) \<Longrightarrow> has_file rest e sub) \<Longrightarrow>
   has_file path e cur \<Longrightarrow> has_file path e (AList.update p (Node fs sub) cur)"
  by (induction path e cur rule: has_file.induct) (auto simp: update_conv' split: option.splits)

lemma ensure_chain_has_file:
  "has_file path e cur \<Longrightarrow> has_file path e (ensure_chain ps cur)"
proof (induction ps arbitrary: cur path)
  case Nil
  then show ?case by simp
next
  case (Cons p ps)
  show ?case
  proof (cases "map_of cur p")
    case None
    with Cons.prems show ?thesis by (simp add: has_file_update_None)
  next
    case (Some n)
    have "has_file path e (AList.update p (Node (files n) (ensure_chain ps (folders n))) cur)"
      by (rule has_file_update_Some [OF Some _ _ Cons.prems]) (simp_all add: Cons.IH)
    with Some show ?thesis by simp
  qed
qed

lemma add_file_has_file:
  "add_file ps d e' cur = Some t \<Longrightarrow> has_file path e cur \<Longrightarrow> has_file path e t"
proof (induction ps arbitrary: cur path t)
  case Nil
  show ?case
  proof (cases "map_of cur d")
    case None
    with Nil show ?thesis by (auto simp: has_file_update_None)
  next
    case (Some n)
    have "has_file path e (AList.update d (Node (files n @ [e']) (folders n)) cur)"
      by (rule has_file_update_Some [OF Some _ _ Nil(2)]) auto
    with Some Nil(1) show ?thesis by auto
  qed
next
  case (Cons p ps)
  from Cons.prems(1) obtain n sub where n: "map_of cur p = Some n"
    and sub: "add_file ps d e' (folders n) = Some sub"
    and t: "t = AList.update p (Node (files n) sub) cur"
    by (auto split: option.splits)
  show ?case unfolding t
    by (rule has_file_update_Some [OF n _ _ Cons.prems(2)]) (simp_all add: Cons.IH [OF sub])
qed

lemma add_root_file_has_file:
  "has_file path e cur \<Longrightarrow> has_file path e (add_root_file e' cur)"
proof (cases "map_of cur root_files_key")
  case None
  assume "has_file path e cur"
  with None show ?thesis by (simp add: add_root_file_def has_file_update_None)
next
  case (Some n)
  assume h: "has_file path e cur"
  have "has_file path e (AList.update root_files_key (Node (files n @ [e']) (folders n)) cur)"
    by (rule has_file_update_Some [OF Some _ _ h]) auto
  with Some show ?thesis by (simp add: add_root_file_def)
qed

lemma add_root_file_counts:
  "num_files (add_root_file e cur) = num_files cur + 1
   \<and> num_nodes (add_root_file e cur) - num_reserved (add_root_file e cur) = num_nodes cur - num_reserved cur
   \<and> has_file [root_files_key] e (add_root_file e cur)"
proof (cases "map_of cur root_files_key")
  case None
  then show ?thesis
    by (simp add: add_root_file_def num_files_update_None num_nodes_update_None
        num_reserved_update update_conv')
next
  case (Some n)
  from num_nodes_update_Some [OF Some, of "files n @ [e]" "folders n"]
       num_files_update_Some [OF Some, of "files n @ [e]" "folders n"]
  show ?thesis using Some by (simp add: add_root_file_def num_reserved_update update_conv')
qed

lemmas num_folders_alt = num_folders_def

lemma insert_object_props:
  "\<exists>t. insert_object obj tree = Some t
     \<and> num_files t = num_files tree + (if last (split_slash (Key obj)) = [] then 0 else 1)
     \<and> num_folders t \<le> num_folders tree + (length (split_slash (Key obj)) - 1)
     \<and> (last (split_slash (Key obj)) \<noteq> [] \<longrightarrow> has_file (chain_of (Key obj)) (Key obj, Size obj) t)
     \<and> (\<forall>path e. has_file path e tree \<longrightarrow> has_file path e t)"
proof -
  define parts where "parts = split_slash (Key obj)"
  define t1 where "t1 = ensure_chain (butlast parts) tree"
  have t1_files: "num_files t1 = num_files tree"
    by (simp add: t1_def ensure_chain_files)
  have t1_folders: "num_folders t1 \<le> num_folders tree + (length parts - 1)"
    using ensure_chain_reserved_nodes [of "butlast parts" tree] by (simp add: t1_def num_folders_alt)
  have t1_keeps: "\<And>path e. has_file path e tree \<Longrightarrow> has_file path e t1"
    by (simp add: t1_def ensure_chain_has_file)
  show ?thesis
  proof (cases "last parts = []")
    case True
    then have "insert_object obj tree = Some t1"
      by (simp add: insert_object_def parts_def t1_def Let_def)
    with True t1_files t1_folders t1_keeps show ?thesis by (simp add: parts_def)
  next
    case nonempty: False
    show ?thesis
    proof (cases "length parts > 1")
      case True
      then have bl: "butlast parts \<noteq> []" by (cases parts) auto
      then have eq: "butlast (butlast parts) @ [last (butlast parts)] = butlast parts" by simp
      have "has_chain (butlast (butlast parts) @ [last (butlast parts)]) t1"
        unfolding eq t1_def by (rule has_chain_ensure_chain)
      from add_file_on_chain [OF this, of "(Key obj, Size obj)"] obtain t where
        t: "add_file (butlast (butlast parts)) (last (butlast parts)) (Key obj, Size obj) t1 = Some t"
        "num_nodes t = num_nodes t1" "num_files t = num_files t1 + 1" "num_reserved t = num_reserved t1"
        "has_file (butlast parts) (Key obj, Size obj) t" unfolding eq by blast
      have ins: "insert_object obj tree = Some t"
        using nonempty True t(1) by (simp add: insert_object_def parts_def t1_def Let_def)
      have keeps: "\<And>path e. has_file path e tree \<Longrightarrow> has_file path e t"
        using add_file_has_file [OF t(1)] t1_keeps by blast
      have "chain_of (Key obj) = butlast parts" using True by (simp add: chain_of_def parts_def Let_def)
      with ins nonempty t t1_files t1_folders keeps show ?thesis
        by (simp add: num_folders_alt parts_def)
    next
      case False
      then have ins: "insert_object obj tree = Some (add_root_file (Key obj, Size obj) t1)"
        using nonempty by (simp add: insert_object_def parts_def t1_def Let_def)
      have ch: "chain_of (Key obj) = [root_files_key]" using False by (simp add: chain_of_def parts_def Let_def)
      from add_root_file_counts [of "(Key obj, Size obj)" t1] add_root_file_has_file [of _ _ t1 "(Key obj, Size obj)"]
      show ?thesis using ins ch nonempty t1_files t1_folders t1_keeps
        by (simp add: num_folders_alt parts_def)
    qed
  qed
qed

lemma build_from_props:
  "\<exists>t. build_from objs tree = Some t
     \<and> num_files t = num_files tree + length (filter (\<lambda>obj. last (split_slash (Key obj)) \<noteq> []) objs)
     \<and> num_folders t \<le> num_folders tree + sum_list (map (\<lambda>obj. length (split_slash (Key obj)) - 1) objs)
     \<and> (\<forall>obj \<in> set objs. last (split_slash (Key obj)) \<noteq> [] \<longrightarrow> has_file (chain_of (Key obj)) (Key obj, Size obj) t)
     \<and> (\<forall>path e. has_file path e tree \<longrightarrow> has_file path e t)"
proof (induction objs arbitrary: tree)
  case Nil
  show ?case by simp
next
  case (Cons obj objs)
  from insert_object_props [of obj tree] obtain t1 where
    t1: "insert_object obj tree = Some t1"
    "num_files t1 = num_files tree + (if last (split_slash (Key obj)) = [] then 0 else 1)"
    "num_folders t1 \<le> num_folders tree + (length (split_slash (Key obj)) - 1)"
    "last (split_slash (Key obj)) \<noteq> [] \<longrightarrow> has_file (chain_of (Key obj)) (Key obj, Size obj) t1"
    "\<forall>path e. has_file path e tree \<longrightarrow> has_file path e t1" by blast
  from Cons.IH [of t1] obtain t where
    t: "build_from objs t1 = Some t"
    "num_files t = num_files t1 + length (filter (\<lambda>obj. last (split_slash (Key obj)) \<noteq> []) objs)"
    "num_folders t \<le> num_folders t1 + sum_list (map (\<lambda>obj. length (split_slash (Key obj)) - 1) objs)"
    "\<forall>obj \<in> set objs. last (split_slash (Key obj)) \<noteq> [] \<longrightarrow> has_file (chain_of (Key obj)) (Key obj, Size obj) t"
    "\<forall>path e. has_file path e t1 \<longrightarrow> has_file path e t" by blast
  have "build_from (obj # objs) tree = Some t" using t1(1) t(1) by simp
  moreover have "num_files t = num_files tree + length (filter (\<lambda>obj. last (split_slash (Key obj)) \<noteq> []) (obj # objs))"
    using t1(2) t(2) by simp
  moreover have "num_folders t \<le> num_folders tree + sum_list (map (\<lambda>obj. length (split_slash (Key obj)) - 1) (obj # objs))"
    using t1(3) t(3) by simp
  moreover have "\<forall>o' \<in> set (obj # objs). last (split_slash (Key o')) \<noteq> [] \<longrightarrow> has_file (chain_of (Key o')) (Key o', Size o') t"
    using t1(4) t(4) t(5) by auto
  moreover have "\<forall>path e. has_file path e tree \<longrightarrow> has_file path e t"
    using t1(5) t(5) by blast
  ultimately show ?case by blast
qed



lemma has_file_Cons:
  "has_file (p # rest) e t =
     (case map_of t p of None \<Rightarrow> False
      | Some n \<Rightarrow> if rest = [] then e \<in> set (files n) else has_file rest e (folders n))"
  by (cases rest) (simp_all split: option.splits)

lemma build_tree_props:
  "\<exists>t. build_tree objs = Some t
     \<and> num_files t = length (filter (\<lambda>obj. last (split_slash (Key obj)) \<noteq> []) objs)
     \<and> num_folders t \<le> sum_list (map (\<lambda>obj. length (split_slash (Key obj)) - 1) objs)
     \<and> (\<forall>obj \<in> set objs. last (split_slash (Key obj)) \<noteq> [] \<longrightarrow>
           has_file (chain_of (Key obj)) (Key obj, Size obj) t)"
proof -
  have zero: "num_files [] = 0" "num_folders [] = 0"
    by (simp_all add: num_folders_def num_reserved_def)
  from build_from_props [of objs "[]"] obtain t where
    "build_from objs [] = Some t"
    "num_files t = num_files [] + length (filter (\<lambda>obj. last (split_slash (Key obj)) \<noteq> []) objs)"
    "num_folders t \<le> num_folders [] + sum_list (map (\<lambda>obj. length (split_slash (Key obj)) - 1) objs)"
    "\<forall>obj \<in> set objs. last (split_slash (Key obj)) \<noteq> [] \<longrightarrow>
           has_file (chain_of (Key obj)) (Key obj, Size obj) t"
    by blast
  then show ?thesis unfolding zero build_tree_def by auto
qed

section \<open>Properties of the renderer\<close>

lemma rendered_folders_file_item [simp]: "rendered_folders (file_item f) = []"
  by (simp add: file_item_def)

lemma concat_file_items [simp]: "concat (map rendered_folders (map file_item fs)) = []"
  by (induction fs) simp_all

lemma render_never_reserved:
  "root_files_key \<notin> set (concat (map rendered_folders (render_tree tree parent_path)))"
proof (induction tree parent_path rule: render_tree.induct)
  case (1 tree parent_path)
  show ?case
    using 1 by (subst render_tree.simps) (auto simp: Let_def split: option.splits if_splits)
qed

section \<open>Steps of the generator\<close>

lemma gen_step_AtListing:
  "pc g = AtListing \<Longrightarrow> gen_step rq reg g =
     (case paginate (list_objects_v2 (store rq) (normalize_prefix (folder_path rq))) [] of
        Inl msg \<Rightarrow> (reg, g\<lparr>pc := AtEnd, emitted := emitted g @ [Failed msg]\<rparr>)
      | Inr objs \<Rightarrow>
          if objs = [] then
            (reg, g\<lparr>pc := AtEnd, emitted := emitted g @ [Failed ''No files found in folder'']\<rparr>)
          else (reg, g\<lparr>pc := AtInit, objects := objs\<rparr>))"
  by (simp add: gen_step_def Let_def split: sum.splits)

lemma gen_step_AtInit:
  "pc g = AtInit \<Longrightarrow> gen_step rq reg g =
     (reg(task_id rq \<mapsto> \<lparr>cancelled = False, zip_buffer = None, folder_name = None\<rparr>),
      g\<lparr>pc := AtLoop (objects g),
        zip := \<lparr>zcompression = (if length (objects g) > 100 then ZIP_STORED else ZIP_DEFLATED),
                zentries = [], zclosed = False\<rparr>,
        file_count := 0, total_bytes := 0\<rparr>)"
  by (simp add: gen_step_def)

lemma gen_step_AtLoop_cancelled:
  "pc g = AtLoop objs \<Longrightarrow> is_cancelled reg (task_id rq) \<Longrightarrow> gen_step rq reg g =
     (reg, g\<lparr>pc := AtEnd, zip := (zip g)\<lparr>zclosed := True\<rparr>, emitted := emitted g @ [Cancelled]\<rparr>)"
  by (cases objs) (simp_all add: gen_step_def)

lemma gen_step_AtLoop_Nil:
  "pc g = AtLoop [] \<Longrightarrow> \<not> is_cancelled reg (task_id rq) \<Longrightarrow> gen_step rq reg g =
     (reg, g\<lparr>pc := AtStoreBuffer, zip := (zip g)\<lparr>zclosed := True\<rparr>\<rparr>)"
  by (simp add: gen_step_def)

lemma gen_step_AtLoop_Cons:
  "pc g = AtLoop (obj # rest) \<Longrightarrow> \<not> is_cancelled reg (task_id rq) \<Longrightarrow> gen_step rq reg g =
     (let fpn = normalize_prefix (folder_path rq) in
      if Key obj = fpn then (reg, g\<lparr>pc := AtLoop rest\<rparr>)
      else
        (case get_object (store rq) (Key obj) of
           None \<Rightarrow> (reg, g\<lparr>pc := AtLoop rest\<rparr>)
         | Some file_data \<Rightarrow>
             if drop (length fpn) (Key obj) \<noteq> [] then
               (reg, g\<lparr>pc := AtLoop rest,
                       zip := (zip g)\<lparr>zentries := zentries (zip g) @ [(drop (length fpn) (Key obj), file_data)]\<rparr>,
                       file_count := file_count g + 1,
                       total_bytes := total_bytes g + length file_data,
                       emitted := emitted g @ [Progress (file_count g + 1) (length (objects g))]\<rparr>)
             else (reg, g\<lparr>pc := AtLoop rest\<rparr>)))"
  by (simp add: gen_step_def Let_def split: option.splits)

lemma gen_step_AtStoreBuffer:
  "pc g = AtStoreBuffer \<Longrightarrow> gen_step rq reg g =
     (case reg (task_id rq) of
        None \<Rightarrow> (reg, g\<lparr>pc := AtEnd, emitted := emitted g @ [Failed (key_error_text (task_id rq))]\<rparr>)
      | Some t \<Rightarrow> (reg(task_id rq \<mapsto> t\<lparr>zip_buffer := Some (zip g)\<rparr>), g\<lparr>pc := AtStoreName\<rparr>))"
  by (simp add: gen_step_def)

lemma gen_step_AtStoreName:
  "pc g = AtStoreName \<Longrightarrow> gen_step rq reg g =
     (case reg (task_id rq) of
        None \<Rightarrow> (reg, g\<lparr>pc := AtEnd, emitted := emitted g @ [Failed (key_error_text (task_id rq))]\<rparr>)
      | Some t \<Rightarrow>
          (reg(task_id rq \<mapsto> t\<lparr>folder_name := Some (basename (rstrip_slash (folder_path rq)))\<rparr>),
           g\<lparr>pc := AtEnd, emitted := emitted g @ [Complete (file_count g)]\<rparr>))"
  by (simp add: gen_step_def)

lemma gen_step_AtEnd: "pc g = AtEnd \<Longrightarrow> gen_step rq reg g = (reg, g)"
  by (simp add: gen_step_def)

lemma gen_step_other_task:
  assumes "task_id rq \<noteq> tid"
  shows "fst (gen_step rq reg g) tid = reg tid"
proof (cases "pc g")
  case AtListing
  then show ?thesis by (auto simp: gen_step_AtListing split: sum.splits)
next
  case AtInit
  with assms show ?thesis by (simp add: gen_step_AtInit)
next
  case (AtLoop objs)
  show ?thesis
  proof (cases "is_cancelled reg (task_id rq)")
    case True
    with AtLoop show ?thesis by (simp add: gen_step_AtLoop_cancelled)
  next
    case False
    with AtLoop show ?thesis
      by (cases objs) (auto simp: gen_step_AtLoop_Nil gen_step_AtLoop_Cons Let_def split: option.splits)
  qed
next
  case AtStoreBuffer
  with assms show ?thesis by (auto simp: gen_step_AtStoreBuffer split: option.splits)
next
  case AtStoreName
  with assms show ?thesis by (auto simp: gen_step_AtStoreName split: option.splits)
next
  case AtEnd
  then show ?thesis by (simp add: gen_step_AtEnd)
qed

lemma other_step_gen: "gen (apply_action rq (OtherStep i) s) = gen s"
  by (simp add: split_beta)

lemma other_step_tasks:
  assumes "others_foreign tid s"
  shows "tasks (apply_action rq (OtherStep i) s) tid = tasks s tid"
proof (cases "i < length (others s)")
  case True
  then have "others s ! i \<in> set (others s)" by simp
  with assms have "task_id (fst (others s ! i)) \<noteq> tid" by (simp add: others_foreign_def)
  from gen_step_other_task [OF this] True show ?thesis by (simp add: split_beta)
next
  case False
  then show ?thesis by simp
qed

lemma others_foreign_step:
  assumes "others_foreign tid s"
  shows "others_foreign tid (apply_action rq a s)"
proof (cases a)
  case GenStep
  with assms show ?thesis by (simp add: others_foreign_def split_beta)
next
  case (OtherStep i)
  show ?thesis
  proof (cases "i < length (others s)")
    case True
    then have mem: "others s ! i \<in> set (others s)" by simp
    define g where "g = snd (gen_step (fst (others s ! i)) (tasks s) (snd (others s ! i)))"
    have eq: "others (apply_action rq a s) = (others s)[i := (fst (others s ! i), g)]"
      using True OtherStep by (simp add: split_beta g_def)
    have "task_id (fst p) \<noteq> tid" if "p \<in> set ((others s)[i := (fst (others s ! i), g)])" for p
    proof -
      from that set_update_subset_insert [of "others s" i "(fst (others s ! i), g)"]
      have "p = (fst (others s ! i), g) \<or> p \<in> set (others s)" by auto
      with assms mem show ?thesis by (auto simp: others_foreign_def)
    qed
    then show ?thesis unfolding others_foreign_def eq by blast
  next
    case False
    with assms OtherStep show ?thesis by simp
  qed
next
  case (CancelReq tid')
  with assms show ?thesis by (simp add: others_foreign_def)
next
  case (GetZipReq tid')
  with assms show ?thesis by (auto simp: others_foreign_def split: zip_response.splits)
next
  case (CleanupWake tid')
  with assms show ?thesis by (auto simp: others_foreign_def split: option.splits)
next
  case Tick
  with assms show ?thesis by (simp add: others_foreign_def)
qed

lemma others_foreign_run:
  "others_foreign tid s \<Longrightarrow> others_foreign tid (run rq sched s)"
  by (induction sched arbitrary: s) (simp_all add: others_foreign_step)

lemma no_buffer_gen_step:
  assumes "no_buffer_while_processing rq s"
  shows "no_buffer_while_processing rq (apply_action rq GenStep s)"
proof (cases "pc (gen s)")
  case AtListing
  then show ?thesis
    by (auto simp: gen_step_AtListing no_buffer_while_processing_def split: sum.splits)
next
  case AtInit
  then show ?thesis
    by (simp add: gen_step_AtInit no_buffer_while_processing_def buffer_of_def)
next
  case (AtLoop objs)
  show ?thesis
  proof (cases "is_cancelled (tasks s) (task_id rq)")
    case True
    with AtLoop show ?thesis
      by (simp add: gen_step_AtLoop_cancelled no_buffer_while_processing_def)
  next
    case False
    with AtLoop assms show ?thesis
      by (cases objs)
         (auto simp: gen_step_AtLoop_Nil gen_step_AtLoop_Cons no_buffer_while_processing_def Let_def
               split: option.splits)
  qed
next
  case AtStoreBuffer
  then show ?thesis
    by (auto simp: gen_step_AtStoreBuffer no_buffer_while_processing_def split: option.splits)
next
  case AtStoreName
  then show ?thesis
    by (auto simp: gen_step_AtStoreName no_buffer_while_processing_def split: option.splits)
next
  case AtEnd
  then show ?thesis
    by (simp add: gen_step_AtEnd no_buffer_while_processing_def)
qed

lemma no_buffer_step:
  assumes "no_buffer_while_processing rq s" "others_foreign (task_id rq) s"
  shows "no_buffer_while_processing rq (apply_action rq a s)"
proof (cases a)
  case GenStep
  with assms show ?thesis by (simp only: no_buffer_gen_step)
next
  case (OtherStep i)
  from assms(1) show ?thesis
    unfolding OtherStep no_buffer_while_processing_def buffer_of_def other_step_tasks [OF assms(2), of rq i]
      other_step_gen [of rq i s] .
next
  case (CancelReq tid)
  with assms show ?thesis
    by (auto simp: no_buffer_while_processing_def cancel_download_def buffer_of_def
             split: gen_pc.splits option.splits)
next
  case (GetZipReq tid)
  with assms show ?thesis
    by (auto simp: no_buffer_while_processing_def split: gen_pc.splits zip_response.splits)
next
  case (CleanupWake tid)
  with assms show ?thesis
    by (auto simp: no_buffer_while_processing_def buffer_of_def split: gen_pc.splits option.splits)
next
  case Tick
  with assms show ?thesis by (auto simp: no_buffer_while_processing_def split: gen_pc.splits)
qed

lemma no_buffer_run:
  "no_buffer_while_processing rq s \<Longrightarrow> others_foreign (task_id rq) s \<Longrightarrow>
   no_buffer_while_processing rq (run rq sched s)"
  by (induction sched arbitrary: s) (simp_all add: no_buffer_step others_foreign_step)

lemma cancel_pending_gen_step:
  assumes "cancel_pending rq s"
  shows "cancel_pending rq (apply_action rq GenStep s)"
proof (cases "pc (gen s)")
  case AtListing
  with assms show ?thesis by (simp add: cancel_pending_def)
next
  case AtInit
  with assms show ?thesis by (simp add: cancel_pending_def)
next
  case (AtLoop objs)
  show ?thesis
  proof (cases "is_cancelled (tasks s) (task_id rq)")
    case True
    with AtLoop assms show ?thesis
      by (auto simp: gen_step_AtLoop_cancelled cancel_pending_def buffer_of_def is_cancelled_def
               split: option.splits)
  next
    case False
    with AtLoop assms show ?thesis
      by (cases objs)
         (auto simp: gen_step_AtLoop_Nil gen_step_AtLoop_Cons cancel_pending_def Let_def is_cancelled_def
               split: option.splits)
  qed
next
  case AtStoreBuffer
  with assms show ?thesis
    by (auto simp: gen_step_AtStoreBuffer cancel_pending_def buffer_of_def split: option.splits)
next
  case AtStoreName
  with assms show ?thesis
    by (auto simp: gen_step_AtStoreName cancel_pending_def buffer_of_def split: option.splits)
next
  case AtEnd
  with assms show ?thesis
    by (simp add: gen_step_AtEnd cancel_pending_def)
qed

lemma cancel_pending_step:
  assumes "cancel_pending rq s" "others_foreign (task_id rq) s"
  shows "cancel_pending rq (apply_action rq a s)"
proof (cases a)
  case GenStep
  with assms show ?thesis by (simp only: cancel_pending_gen_step)
next
  case (OtherStep i)
  from assms(1) show ?thesis
    unfolding OtherStep cancel_pending_def buffer_of_def other_step_tasks [OF assms(2), of rq i]
      other_step_gen [of rq i s] .
next
  case (CancelReq tid)
  with assms show ?thesis
    by (auto simp: cancel_pending_def cancel_download_def buffer_of_def
             split: gen_pc.splits option.splits if_splits)
next
  case (GetZipReq tid)
  with assms show ?thesis
    by (auto simp: cancel_pending_def split: gen_pc.splits zip_response.splits)
next
  case (CleanupWake tid)
  with assms show ?thesis
    by (auto simp: cancel_pending_def buffer_of_def split: gen_pc.splits option.splits if_splits)
next
  case Tick
  with assms show ?thesis by (auto simp: cancel_pending_def split: gen_pc.splits)
qed

lemma cancel_pending_run:
  "cancel_pending rq s \<Longrightarrow> others_foreign (task_id rq) s \<Longrightarrow> cancel_pending rq (run rq sched s)"
  by (induction sched arbitrary: s) (simp_all add: cancel_pending_step others_foreign_step)

lemma cancel_pending_no_buffer:
  "cancel_pending rq s \<Longrightarrow> buffer_of (tasks s) (task_id rq) = None"
  by (auto simp: cancel_pending_def buffer_of_def split: gen_pc.splits option.splits)

lemma cancel_makes_pending:
  "pc (gen s) = AtLoop objs \<Longrightarrow> no_buffer_while_processing rq s \<Longrightarrow>
   cancel_pending rq (apply_action rq (CancelReq (task_id rq)) s)"
  by (auto simp: cancel_pending_def no_buffer_while_processing_def cancel_download_def buffer_of_def
           split: option.splits)


section \<open>Invariants of the generator\<close>

lemma progress_of_append: "progress_of (evs @ evs') = progress_of evs @ progress_of evs'"
  by (induction evs rule: progress_of.induct) simp_all

lemma counted_Nil: "counted 0 t []"
  by (simp add: counted_def)

lemma counted_other:
  "counted k t evs \<Longrightarrow> progress_of [ev] = [] \<Longrightarrow> counted k t (evs @ [ev])"
  by (simp add: counted_def progress_of_append)

lemma counted_Progress:
  "counted k t evs \<Longrightarrow> counted (Suc k) t (evs @ [Progress (Suc k) t])"
  by (simp add: counted_def progress_of_append)

lemma has_complete_append: "has_complete (evs @ [ev]) = (has_complete evs \<or> (\<exists>n. ev = Complete n))"
  by (auto simp: has_complete_def)

lemma gen_inv_step:
  assumes "gen_inv rq g"
  shows "gen_inv rq (snd (gen_step rq reg g))"
proof (cases "pc g")
  case AtListing
  with assms show ?thesis
    by (auto simp: gen_step_AtListing gen_inv_def counted_def has_complete_def listing_total_def
             split: sum.splits)
next
  case AtInit
  with assms show ?thesis
    by (simp add: gen_step_AtInit gen_inv_def counted_def has_complete_def mode_for_def)
next
  case (AtLoop objs)
  show ?thesis
  proof (cases "is_cancelled reg (task_id rq)")
    case True
    have le: "file_count g \<le> listing_total rq" and cnt: "counted (file_count g) (listing_total rq) (emitted g)"
      and nc: "\<not> has_complete (emitted g)"
      using assms AtLoop by (simp_all add: gen_inv_def)
    have "counted (file_count g) (listing_total rq) (emitted g @ [Cancelled])"
      using cnt by (rule counted_other) simp
    with le have "\<exists>k \<le> listing_total rq. counted k (listing_total rq) (emitted g @ [Cancelled])"
      by blast
    with True AtLoop nc show ?thesis
      by (simp add: gen_step_AtLoop_cancelled gen_inv_def has_complete_append)
  next
    case False
    show ?thesis
    proof (cases objs)
      case Nil
      with False AtLoop assms show ?thesis
        by (simp add: gen_step_AtLoop_Nil gen_inv_def)
    next
      case (Cons obj rest)
      with False AtLoop assms show ?thesis
        by (auto simp: gen_step_AtLoop_Cons gen_inv_def Let_def has_complete_append
                 intro: counted_Progress split: option.splits)
    qed
  qed
next
  case AtStoreBuffer
  with assms show ?thesis
    by (auto simp: gen_step_AtStoreBuffer gen_inv_def has_complete_append
             intro!: counted_other split: option.splits)
next
  case AtStoreName
  with assms show ?thesis
    by (auto simp: gen_step_AtStoreName gen_inv_def has_complete_append
             intro!: counted_other split: option.splits)
next
  case AtEnd
  with assms show ?thesis by (simp add: gen_step_AtEnd)
qed

lemma gen_apply_action:
  "gen (apply_action rq a s) = (if a = GenStep then snd (gen_step rq (tasks s) (gen s)) else gen s)"
  by (cases a) (auto simp: split_beta split: zip_response.splits option.splits)

lemma gen_inv_run: "gen_inv rq (gen s) \<Longrightarrow> gen_inv rq (gen (run rq sched s))"
  by (induction sched arbitrary: s) (simp_all add: gen_apply_action gen_inv_step)

lemma counted_sorted: "counted k t evs \<Longrightarrow> sorted_wrt (<) (map fst (progress_of evs))"
  by (simp add: counted_def comp_def del: upt_Suc)

lemma counted_bound:
  "counted k t evs \<Longrightarrow> k \<le> t \<Longrightarrow> (c, t') \<in> set (progress_of evs) \<Longrightarrow> c \<le> t' \<and> t' = t"
  by (auto simp: counted_def simp del: upt_Suc)

lemma gen_inv_counted:
  assumes "gen_inv rq g"
  shows "\<exists>k \<le> listing_total rq. counted k (listing_total rq) (emitted g)"
proof (cases "pc g")
  case AtListing
  with assms have "counted 0 (listing_total rq) (emitted g)" by (simp add: gen_inv_def counted_Nil)
  then show ?thesis by blast
next
  case AtInit
  with assms have "counted 0 (listing_total rq) (emitted g)" by (simp add: gen_inv_def counted_Nil)
  then show ?thesis by blast
next
  case (AtLoop rest)
  with assms have "file_count g \<le> listing_total rq"
    "counted (file_count g) (listing_total rq) (emitted g)" by (simp_all add: gen_inv_def)
  then show ?thesis by blast
next
  case AtStoreBuffer
  with assms have "file_count g \<le> listing_total rq"
    "counted (file_count g) (listing_total rq) (emitted g)" by (simp_all add: gen_inv_def)
  then show ?thesis by blast
next
  case AtStoreName
  with assms have "file_count g \<le> listing_total rq"
    "counted (file_count g) (listing_total rq) (emitted g)" by (simp_all add: gen_inv_def)
  then show ?thesis by blast
next
  case AtEnd
  with assms show ?thesis by (simp add: gen_inv_def)
qed

lemma gen_inv_complete: "gen_inv rq g \<Longrightarrow> has_complete (emitted g) \<Longrightarrow> zclosed (zip g) \<and> pc g = AtEnd"
  by (cases "pc g") (auto simp: gen_inv_def has_complete_def)

lemma same_env_step:
  "same_env s s' \<Longrightarrow> a \<noteq> GenStep \<Longrightarrow> same_env (apply_action rq a s) (apply_action rq a s')"
  by (cases a)
     (auto simp: same_env_def awake_def split_beta split: zip_response.splits option.splits)

lemma run_ticks: "run rq (replicate n Tick) s = s\<lparr>clock := clock s + n\<rparr>"
  by (induction n arbitrary: s) simp_all

lemma legacy_add_mode: "zcompression (legacy_add st fp objs z) = zcompression z"
  by (induction st fp objs z rule: legacy_add.induct) (simp_all add: Let_def split: option.splits)


section \<open>A generator with an empty listing\<close>

lemma idle_generator_step:
  assumes "paginate (list_objects_v2 (store rq) (normalize_prefix (folder_path rq))) [] = Inr []"
    and "pc (gen s) = AtListing \<and> emitted (gen s) = []
         \<or> pc (gen s) = AtEnd \<and> emitted (gen s) = [Failed ''No files found in folder'']"
  shows "same_env (apply_action rq GenStep s) s
     \<and> pc (gen (apply_action rq GenStep s)) = AtEnd
     \<and> emitted (gen (apply_action rq GenStep s)) = [Failed ''No files found in folder'']"
  using assms by (auto simp: gen_step_AtListing gen_step_AtEnd same_env_def)

lemma env_action_gen: "a \<noteq> GenStep \<Longrightarrow> gen (apply_action rq a s) = gen s"
  by (simp add: gen_apply_action)

lemma empty_listing_run:
  assumes empty: "paginate (list_objects_v2 (store rq) (normalize_prefix (folder_path rq))) [] = Inr []"
  shows "same_env s s' \<Longrightarrow>
     (pc (gen s) = AtListing \<and> emitted (gen s) = []
         \<or> pc (gen s) = AtEnd \<and> emitted (gen s) = [Failed ''No files found in folder'']) \<Longrightarrow>
     same_env (run rq sched s) (run rq (filter (\<lambda>a. a \<noteq> GenStep) sched) s')
     \<and> (GenStep \<in> set sched \<longrightarrow>
          pc (gen (run rq sched s)) = AtEnd
          \<and> emitted (gen (run rq sched s)) = [Failed ''No files found in folder''])
     \<and> (GenStep \<notin> set sched \<longrightarrow> gen (run rq sched s) = gen s)"
proof (induction sched arbitrary: s s')
  case Nil
  then show ?case by simp
next
  case (Cons a sched)
  show ?case
  proof (cases "a = GenStep")
    case True
    from idle_generator_step [OF empty Cons.prems(2)]
    have st: "same_env (apply_action rq GenStep s) s"
      "pc (gen (apply_action rq GenStep s)) = AtEnd"
      "emitted (gen (apply_action rq GenStep s)) = [Failed ''No files found in folder'']"
      by blast+
    from st(1) Cons.prems(1) have se: "same_env (apply_action rq GenStep s) s'"
      by (simp add: same_env_def)
    from Cons.IH [OF se] st(2,3)
    have ih: "same_env (run rq sched (apply_action rq GenStep s)) (run rq (filter (\<lambda>a. a \<noteq> GenStep) sched) s')"
      "GenStep \<in> set sched \<longrightarrow>
          pc (gen (run rq sched (apply_action rq GenStep s))) = AtEnd
          \<and> emitted (gen (run rq sched (apply_action rq GenStep s))) = [Failed ''No files found in folder'']"
      "GenStep \<notin> set sched \<longrightarrow> gen (run rq sched (apply_action rq GenStep s)) = gen (apply_action rq GenStep s)"
      by blast+
    from ih st(2,3) True show ?thesis by (cases "GenStep \<in> set sched") simp_all
  next
    case False
    then have g: "gen (apply_action rq a s) = gen s" by (rule env_action_gen)
    from same_env_step [OF Cons.prems(1) False]
    have se: "same_env (apply_action rq a s) (apply_action rq a s')" .
    from Cons.IH [OF se] Cons.prems(2) g False show ?thesis by simp
  qed
qed


section \<open>What the generator leaves in the registry\<close>

lemma gen_step_keeps_tasks: "reg tid \<noteq> None \<Longrightarrow> fst (gen_step rq reg g) tid \<noteq> None"
proof (cases "pc g")
  case AtListing
  assume "reg tid \<noteq> None"
  with AtListing show ?thesis by (auto simp: gen_step_AtListing split: sum.splits)
next
  case AtInit
  assume "reg tid \<noteq> None"
  with AtInit show ?thesis by (simp add: gen_step_AtInit)
next
  case (AtLoop objs)
  assume r: "reg tid \<noteq> None"
  show ?thesis
  proof (cases "is_cancelled reg (task_id rq)")
    case True
    with AtLoop r show ?thesis by (simp add: gen_step_AtLoop_cancelled)
  next
    case False
    with AtLoop r show ?thesis
      by (cases objs) (auto simp: gen_step_AtLoop_Nil gen_step_AtLoop_Cons Let_def split: option.splits)
  qed
next
  case AtStoreBuffer
  assume "reg tid \<noteq> None"
  with AtStoreBuffer show ?thesis by (auto simp: gen_step_AtStoreBuffer split: option.splits)
next
  case AtStoreName
  assume "reg tid \<noteq> None"
  with AtStoreName show ?thesis by (auto simp: gen_step_AtStoreName split: option.splits)
next
  case AtEnd
  assume "reg tid \<noteq> None"
  with AtEnd show ?thesis by (simp add: gen_step_AtEnd)
qed

section \<open>Cleanup threads\<close>

lemma run_append: "run rq (xs @ ys) s = run rq ys (run rq xs s)"
  by (induction xs arbitrary: s) simp_all

lemma awake_due:
  "(tid, due) \<in> set (sleepers s) \<Longrightarrow> due \<le> clock s \<Longrightarrow> awake tid s \<noteq> None"
  unfolding awake_def find_None_iff by force

lemma cleanup_not_found:
  "awake tid s \<noteq> None \<Longrightarrow> get_zip tid (tasks (apply_action rq (CleanupWake tid) s)) = NotFound"
  by (auto simp: get_zip_def)

lemma sleepers_step:
  "\<forall>tid. a \<noteq> GetZipReq tid \<Longrightarrow> set (sleepers (apply_action rq a s)) \<subseteq> set (sleepers s)"
  using set_remove1_subset [of _ "sleepers s"]
  by (cases a) (auto simp: split_beta split: option.splits)

lemma sleepers_run:
  "\<forall>tid. GetZipReq tid \<notin> set sched \<Longrightarrow> set (sleepers (run rq sched s)) \<subseteq> set (sleepers s)"
proof (induction sched arbitrary: s)
  case Nil
  show ?case by simp
next
  case (Cons a sched)
  then have a: "\<forall>tid. a \<noteq> GetZipReq tid" and rest: "\<forall>tid. GetZipReq tid \<notin> set sched" by auto
  from Cons.IH [OF rest, of "apply_action rq a s"] sleepers_step [OF a, of rq s]
  show ?case by auto
qed


section \<open>What removes an entry, and what a removed entry needs to come back\<close>

lemma removed_only_by_cleanup:
  assumes "tasks s tid \<noteq> None" "tasks (apply_action rq a s) tid = None"
  shows "a = CleanupWake tid \<and> awake tid s \<noteq> None"
proof (cases a)
  case GenStep
  from gen_step_keeps_tasks [of "tasks s" tid rq "gen s"] assms GenStep
  show ?thesis by (simp add: split_beta)
next
  case (OtherStep i)
  show ?thesis
  proof (cases "i < length (others s)")
    case True
    from gen_step_keeps_tasks [of "tasks s" tid "fst (others s ! i)" "snd (others s ! i)"]
      assms OtherStep True
    show ?thesis by (simp add: split_beta)
  next
    case False
    with assms OtherStep show ?thesis by simp
  qed
next
  case (CancelReq tid')
  with assms show ?thesis by (auto simp: cancel_download_def split: option.splits if_splits)
next
  case (GetZipReq tid')
  with assms show ?thesis by (auto split: zip_response.splits)
next
  case (CleanupWake tid')
  with assms show ?thesis by (auto split: option.splits if_splits)
next
  case Tick
  with assms show ?thesis by simp
qed

lemma cancelled_step_keeps_entry:
  assumes "pc (gen s) = AtLoop objs" "is_cancelled (tasks s) (task_id rq)"
  shows "tasks (apply_action rq GenStep s) = tasks s
     \<and> emitted (gen (apply_action rq GenStep s)) = emitted (gen s) @ [Cancelled]
     \<and> pc (gen (apply_action rq GenStep s)) = AtEnd
     \<and> get_zip (task_id rq) (tasks (apply_action rq GenStep s)) \<noteq> NotFound"
  using assms
  by (auto simp: gen_step_AtLoop_cancelled is_cancelled_def get_zip_def split: option.splits)

lemma cancelled_step_left_not_ready:
  assumes "no_buffer_while_processing rq s" "others_foreign (task_id rq) s"
    "pc (gen s) = AtLoop objs" "is_cancelled (tasks s) (task_id rq)"
  shows "left_not_ready rq (apply_action rq GenStep s)"
proof -
  from assms(1,3,4) have "case tasks s (task_id rq) of None \<Rightarrow> False | Some t \<Rightarrow> zip_buffer t = None"
    by (auto simp: no_buffer_while_processing_def buffer_of_def is_cancelled_def split: option.splits)
  moreover from cancelled_step_keeps_entry [OF assms(3,4)]
  have "tasks (apply_action rq GenStep s) = tasks s" "pc (gen (apply_action rq GenStep s)) = AtEnd"
    by blast+
  moreover have "others_foreign (task_id rq) (apply_action rq GenStep s)"
    using assms(2) by (rule others_foreign_step)
  ultimately show ?thesis by (simp add: left_not_ready_def)
qed

lemma left_not_ready_step:
  assumes "left_not_ready rq s" "a \<noteq> CleanupWake (task_id rq)"
  shows "left_not_ready rq (apply_action rq a s)"
proof -
  from assms(1) have fo: "others_foreign (task_id rq) s" by (simp add: left_not_ready_def)
  then have fo': "others_foreign (task_id rq) (apply_action rq a s)" by (rule others_foreign_step)
  show ?thesis
  proof (cases a)
    case GenStep
    with assms(1) fo' show ?thesis by (simp add: left_not_ready_def gen_step_AtEnd)
  next
    case (OtherStep i)
    from assms(1) fo' show ?thesis
      unfolding OtherStep left_not_ready_def other_step_tasks [OF fo, of rq i]
        other_step_gen [of rq i s] by blast
  next
    case (CancelReq tid)
    with assms(1) fo' show ?thesis
      by (auto simp: left_not_ready_def cancel_download_def split: option.splits)
  next
    case (GetZipReq tid)
    with assms(1) fo' show ?thesis
      by (auto simp: left_not_ready_def split: zip_response.splits)
  next
    case (CleanupWake tid)
    with assms fo' show ?thesis
      by (auto simp: left_not_ready_def split: option.splits)
  next
    case Tick
    with assms(1) fo' show ?thesis by (simp add: left_not_ready_def)
  qed
qed

lemma left_not_ready_run:
  "left_not_ready rq s \<Longrightarrow> CleanupWake (task_id rq) \<notin> set sched \<Longrightarrow>
   left_not_ready rq (run rq sched s)"
proof (induction sched arbitrary: s)
  case Nil
  then show ?case by simp
next
  case (Cons a sched)
  then have a: "a \<noteq> CleanupWake (task_id rq)" and rest: "CleanupWake (task_id rq) \<notin> set sched"
    by auto
  from Cons.IH [OF left_not_ready_step [OF Cons.prems(1) a] rest] show ?case by simp
qed

lemma left_not_ready_get_zip:
  "left_not_ready rq s \<Longrightarrow> get_zip (task_id rq) (tasks s) = NotReady"
  by (auto simp: left_not_ready_def get_zip_def split: option.splits)

lemma sleeper_kept_step:
  assumes "(tid, due) \<in> set (sleepers s)" "a \<noteq> CleanupWake tid"
  shows "(tid, due) \<in> set (sleepers (apply_action rq a s))"
proof (cases a)
  case (CleanupWake tid')
  show ?thesis
  proof (cases "awake tid' s")
    case None
    with assms CleanupWake show ?thesis by simp
  next
    case (Some th)
    then have "fst th = tid'" unfolding awake_def by (auto simp: find_Some_iff)
    with assms CleanupWake have "(tid, due) \<noteq> th" by auto
    with assms(1) have "(tid, due) \<in> set (remove1 th (sleepers s))" by simp
    with Some CleanupWake show ?thesis by simp
  qed
next
  case GenStep
  with assms show ?thesis by (simp add: split_beta)
next
  case (OtherStep i)
  with assms show ?thesis by (simp add: split_beta)
next
  case (CancelReq tid')
  with assms show ?thesis by simp
next
  case (GetZipReq tid')
  with assms show ?thesis by (auto split: zip_response.splits)
next
  case Tick
  with assms show ?thesis by simp
qed

lemma sleeper_kept_run:
  "(tid, due) \<in> set (sleepers s) \<Longrightarrow> CleanupWake tid \<notin> set sched \<Longrightarrow>
   (tid, due) \<in> set (sleepers (run rq sched s))"
proof (induction sched arbitrary: s)
  case Nil
  then show ?case by simp
next
  case (Cons a sched)
  then have a: "a \<noteq> CleanupWake tid" and rest: "CleanupWake tid \<notin> set sched" by auto
  from Cons.IH [OF sleeper_kept_step [OF Cons.prems(1) a] rest] show ?case by simp
qed

lemma absent_step:
  assumes "tasks s tid = None" "unused_id rq tid s"
  shows "tasks (apply_action rq a s) tid = None \<and> unused_id rq tid (apply_action rq a s)"
proof -
  from assms(2) have ne: "task_id rq \<noteq> tid" and fo: "others_foreign tid s"
    by (simp_all add: unused_id_def)
  from fo have "others_foreign tid (apply_action rq a s)" by (rule others_foreign_step)
  with ne have u: "unused_id rq tid (apply_action rq a s)" by (simp add: unused_id_def)
  have "tasks (apply_action rq a s) tid = None"
  proof (cases a)
    case GenStep
    from gen_step_other_task [OF ne, of "tasks s" "gen s"] assms(1) GenStep
    show ?thesis by (simp add: split_beta)
  next
    case (OtherStep i)
    from assms(1) show ?thesis unfolding OtherStep other_step_tasks [OF fo, of rq i] .
  next
    case (CancelReq tid')
    with assms(1) show ?thesis by (auto simp: cancel_download_def split: option.splits)
  next
    case (GetZipReq tid')
    with assms(1) show ?thesis by (auto split: zip_response.splits)
  next
    case (CleanupWake tid')
    with assms(1) show ?thesis by (auto split: option.splits)
  next
    case Tick
    with assms(1) show ?thesis by simp
  qed
  with u show ?thesis by blast
qed

lemma absent_run:
  "tasks s tid = None \<Longrightarrow> unused_id rq tid s \<Longrightarrow> tasks (run rq sched s) tid = None"
proof (induction sched arbitrary: s)
  case Nil
  then show ?case by simp
next
  case (Cons a sched)
  from absent_step [OF Cons.prems, of a]
  have "tasks (apply_action rq a s) tid = None" "unused_id rq tid (apply_action rq a s)" by blast+
  from Cons.IH [OF this] show ?case by simp
qed

section \<open>Claims about the tree builder and the renderer\<close>

text \<open>
  C5. For every listing \<^verbatim>\<open>build_tree\<close> returns a tree (the second walk never meets a
  missing folder) in which every record whose last segment is not empty has its entry
  in the files of the folder reached by the chain its key implies (the reserved
  top-level entry for a key of one segment). Each record adds exactly one file entry,
  none when its last segment is empty, and at most N - 1 folders for a key of N
  segments, both for one insertion into any tree and summed over the listing. The
  listing a/b.txt (10), a/c/d.txt (20), root.txt (5) gives the root file root.txt and
  the folder a with the file b.txt and the subfolder c with the file d.txt; the entries
  hold the full keys and the renderer shows the base names.
\<close>

theorem build_tree_places_every_file:
  "(\<exists>t. build_tree objs = Some t
      \<and> (\<forall>obj \<in> set objs. last (split_slash (Key obj)) \<noteq> [] \<longrightarrow>
            has_file (chain_of (Key obj)) (Key obj, Size obj) t)
      \<and> num_files t = length (filter (\<lambda>obj. last (split_slash (Key obj)) \<noteq> []) objs)
      \<and> num_folders t \<le> sum_list (map (\<lambda>obj. length (split_slash (Key obj)) - 1) objs))
   \<and> (\<exists>t. insert_object obj tree = Some t
      \<and> num_files t = num_files tree + (if last (split_slash (Key obj)) = [] then 0 else 1)
      \<and> num_folders t \<le> num_folders tree + (length (split_slash (Key obj)) - 1))
   \<and> build_tree scenario_listing =
       Some [(''a'', Node [(''a/b.txt'', 10)] [(''c'', Node [(''a/c/d.txt'', 20)] [])]),
             (''_root_files'', Node [(''root.txt'', 5)] [])]
   \<and> render_tree [(''a'', Node [(''a/b.txt'', 10)] [(''c'', Node [(''a/c/d.txt'', 20)] [])]),
                   (''_root_files'', Node [(''root.txt'', 5)] [])] [] =
       [FileItem ''root.txt'' ''root.txt'' 5,
        FolderItem ''a'' ''a'' [FileItem ''a/b.txt'' ''b.txt'' 10]
          (Some [FolderItem ''c'' ''a/c'' [FileItem ''a/c/d.txt'' ''d.txt'' 20] None])]"
proof -
  have whole: "\<exists>t. build_tree objs = Some t
      \<and> (\<forall>obj \<in> set objs. last (split_slash (Key obj)) \<noteq> [] \<longrightarrow>
            has_file (chain_of (Key obj)) (Key obj, Size obj) t)
      \<and> num_files t = length (filter (\<lambda>obj. last (split_slash (Key obj)) \<noteq> []) objs)
      \<and> num_folders t \<le> sum_list (map (\<lambda>obj. length (split_slash (Key obj)) - 1) objs)"
    using build_tree_props [of objs] by blast
  have one: "\<exists>t. insert_object obj tree = Some t
      \<and> num_files t = num_files tree + (if last (split_slash (Key obj)) = [] then 0 else 1)
      \<and> num_folders t \<le> num_folders tree + (length (split_slash (Key obj)) - 1)"
    using insert_object_props [of obj tree] by blast
  have scenario: "build_tree scenario_listing =
       Some [(''a'', Node [(''a/b.txt'', 10)] [(''c'', Node [(''a/c/d.txt'', 20)] [])]),
             (''_root_files'', Node [(''root.txt'', 5)] [])]"
    by code_simp
  have shown: "render_tree [(''a'', Node [(''a/b.txt'', 10)] [(''c'', Node [(''a/c/d.txt'', 20)] [])]),
                   (''_root_files'', Node [(''root.txt'', 5)] [])] [] =
       [FileItem ''root.txt'' ''root.txt'' 5,
        FolderItem ''a'' ''a'' [FileItem ''a/b.txt'' ''b.txt'' 10]
          (Some [FolderItem ''c'' ''a/c'' [FileItem ''a/c/d.txt'' ''d.txt'' 20] None])]"
    by code_simp
  from whole one scenario shown show ?thesis by blast
qed

theorem build_tree_places_every_file_witness:
  "\<exists>t. build_tree scenario_listing = Some t
     \<and> has_file [''a'', ''c''] (''a/c/d.txt'', 20) t
     \<and> num_files t = 3 \<and> num_folders t \<le> 3"
proof -
  from build_tree_places_every_file [of scenario_listing "S3Object ''a/'' 0" "[]"]
  obtain t where t: "build_tree scenario_listing = Some t"
    and placed: "\<forall>obj \<in> set scenario_listing. last (split_slash (Key obj)) \<noteq> [] \<longrightarrow>
            has_file (chain_of (Key obj)) (Key obj, Size obj) t"
    and nf: "num_files t = length (filter (\<lambda>obj. last (split_slash (Key obj)) \<noteq> []) scenario_listing)"
    and nd: "num_folders t \<le> sum_list (map (\<lambda>obj. length (split_slash (Key obj)) - 1) scenario_listing)"
    by blast
  have mem: "S3Object ''a/c/d.txt'' 20 \<in> set scenario_listing"
    by (simp add: scenario_listing_def)
  have "has_file [''a'', ''c''] (''a/c/d.txt'', 20) t"
    using bspec [OF placed mem] by (simp add: chain_of_def)
  moreover have "num_files t = 3" using nf by (simp add: scenario_listing_def)
  moreover have "num_folders t \<le> 3" using nd by (simp add: scenario_listing_def)
  ultimately show ?thesis using t by blast
qed

text \<open>
  C10. Root-level files are kept under the reserved key \<^verbatim>\<open>"_root_files"\<close> of the
  top-level dictionary. For every listing, a record whose first segment is that key
  and whose last segment is not empty ends up inside the same top-level entry: in its
  file list, beside the root-level files, when the key has at most two segments, and
  in its subfolders along the rest of the chain otherwise. The renderer never shows a
  folder item named by the reserved key, at any level and for any tree; for the
  listing root.txt, _root_files/x.txt it shows two plain files and no folder.
\<close>

theorem reserved_key_shares_root_container:
  "(\<forall>obj \<in> set objs.
       hd (split_slash (Key obj)) = root_files_key \<and> last (split_slash (Key obj)) \<noteq> [] \<longrightarrow>
       (\<exists>t c. build_tree objs = Some t \<and> map_of t root_files_key = Some c
          \<and> (if length (split_slash (Key obj)) \<le> 2 then (Key obj, Size obj) \<in> set (files c)
             else has_file (tl (butlast (split_slash (Key obj)))) (Key obj, Size obj) (folders c))))
   \<and> root_files_key \<notin> set (concat (map rendered_folders (render_tree tree parent_path)))
   \<and> build_tree [S3Object ''root.txt'' 5, S3Object ''_root_files/x.txt'' 1] =
       Some [(''_root_files'', Node [(''root.txt'', 5), (''_root_files/x.txt'', 1)] [])]
   \<and> render_tree [(''_root_files'', Node [(''root.txt'', 5), (''_root_files/x.txt'', 1)] [])] [] =
       [FileItem ''root.txt'' ''root.txt'' 5, FileItem ''_root_files/x.txt'' ''x.txt'' 1]"
proof -
  have merged: "\<exists>t c. build_tree objs = Some t \<and> map_of t root_files_key = Some c
          \<and> (if length (split_slash (Key obj)) \<le> 2 then (Key obj, Size obj) \<in> set (files c)
             else has_file (tl (butlast (split_slash (Key obj)))) (Key obj, Size obj) (folders c))"
    if mem: "obj \<in> set objs" and first: "hd (split_slash (Key obj)) = root_files_key"
      and lst: "last (split_slash (Key obj)) \<noteq> []" for obj
  proof -
    define parts where "parts = split_slash (Key obj)"
    have ne: "parts \<noteq> []" by (simp add: parts_def split_slash_not_Nil)
    from build_tree_props [of objs] obtain t where t: "build_tree objs = Some t"
      and placed: "\<forall>obj \<in> set objs. last (split_slash (Key obj)) \<noteq> [] \<longrightarrow>
            has_file (chain_of (Key obj)) (Key obj, Size obj) t" by blast
    from placed mem lst have hf: "has_file (chain_of (Key obj)) (Key obj, Size obj) t" by blast
    show ?thesis
    proof (cases "length parts > 1")
      case True
      then have "butlast parts \<noteq> []" by (cases parts) auto
      then have "butlast parts = hd (butlast parts) # tl (butlast parts)" by simp
      moreover have "hd (butlast parts) = hd parts" using True by (cases parts) auto
      ultimately have "butlast parts = root_files_key # tl (butlast parts)"
        using first by (simp add: parts_def [symmetric])
      then have ch: "chain_of (Key obj) = root_files_key # tl (butlast parts)"
        using True by (simp add: chain_of_def parts_def [symmetric] Let_def)
      have "length (tl (butlast parts)) = length parts - 2" by simp
      then have "length (tl (butlast parts)) = 0 \<longleftrightarrow> length parts \<le> 2" by linarith
      moreover have "tl (butlast parts) = [] \<longleftrightarrow> length (tl (butlast parts)) = 0"
        by (rule length_0_conv [symmetric])
      ultimately have "tl (butlast parts) = [] \<longleftrightarrow> length parts \<le> 2" by blast
      with hf t show ?thesis
        unfolding ch has_file_Cons parts_def [symmetric] by (auto split: option.splits if_splits)
    next
      case False
      then have ch: "chain_of (Key obj) = [root_files_key]"
        by (simp add: chain_of_def parts_def [symmetric] Let_def)
      from False have "length parts \<le> 2" by simp
      with hf t show ?thesis
        unfolding ch parts_def [symmetric] by (auto split: option.splits)
    qed
  qed
  have built: "build_tree [S3Object ''root.txt'' 5, S3Object ''_root_files/x.txt'' 1] =
       Some [(''_root_files'', Node [(''root.txt'', 5), (''_root_files/x.txt'', 1)] [])]"
    by code_simp
  have shown: "render_tree [(''_root_files'', Node [(''root.txt'', 5), (''_root_files/x.txt'', 1)] [])] [] =
       [FileItem ''root.txt'' ''root.txt'' 5, FileItem ''_root_files/x.txt'' ''x.txt'' 1]"
    by code_simp
  from merged render_never_reserved [of tree parent_path] built shown show ?thesis by blast
qed

theorem reserved_key_shares_root_container_witness:
  "\<exists>t c. build_tree [S3Object ''root.txt'' 5, S3Object ''_root_files/x.txt'' 1] = Some t
     \<and> map_of t root_files_key = Some c \<and> (''_root_files/x.txt'', 1) \<in> set (files c)
     \<and> (''root.txt'', 5) \<in> set (files c)"
proof -
  let ?objs = "[S3Object ''root.txt'' 5, S3Object ''_root_files/x.txt'' 1]"
  from reserved_key_shares_root_container [of ?objs "[]" "[]"]
  have all: "\<forall>obj \<in> set ?objs.
       hd (split_slash (Key obj)) = root_files_key \<and> last (split_slash (Key obj)) \<noteq> [] \<longrightarrow>
       (\<exists>t c. build_tree ?objs = Some t \<and> map_of t root_files_key = Some c
          \<and> (if length (split_slash (Key obj)) \<le> 2 then (Key obj, Size obj) \<in> set (files c)
             else has_file (tl (butlast (split_slash (Key obj)))) (Key obj, Size obj) (folders c)))"
    and built: "build_tree ?objs =
       Some [(''_root_files'', Node [(''root.txt'', 5), (''_root_files/x.txt'', 1)] [])]"
    by blast+
  have "S3Object ''_root_files/x.txt'' 1 \<in> set ?objs" by simp
  from bspec [OF all this]
  obtain t c where "build_tree ?objs = Some t" "map_of t root_files_key = Some c"
    "(''_root_files/x.txt'', 1) \<in> set (files c)"
    by (auto simp: root_files_key_def)
  with built show ?thesis by (auto simp: root_files_key_def)
qed

section \<open>Claims about folder information and the archive mode\<close>

text \<open>
  C7. For the scenario bucket, folder information on the prefix a/ (or a, which is
  normalized to it) has file_count 2, subfolder_count 1 and total_size_bytes 30. The
  statistics loop skips every record whose key is the normalized prefix itself: its
  accumulators are those of the listing without such records. With a folder marker
  a/ of 7 bytes added to the bucket, size and subfolders stay 30 and 1, while
  file_count, which is the length of the listing, becomes 3.
\<close>

theorem folder_info_scenario:
  "folder_info (bucket_storage scenario_listing) ''a/'' =
     Inr \<lparr> info_path = ''a'', info_file_count = 2, info_total_size_bytes = 30,
           info_subfolder_count = 1 \<rparr>
   \<and> folder_info (bucket_storage scenario_listing) ''a'' =
     Inr \<lparr> info_path = ''a'', info_file_count = 2, info_total_size_bytes = 30,
           info_subfolder_count = 1 \<rparr>
   \<and> folder_stats fp objs acc = folder_stats fp (filter (\<lambda>obj. Key obj \<noteq> fp) objs) acc
   \<and> folder_info (bucket_storage (S3Object ''a/'' 7 # scenario_listing)) ''a/'' =
     Inr \<lparr> info_path = ''a'', info_file_count = 3, info_total_size_bytes = 30,
           info_subfolder_count = 1 \<rparr>"
proof -
  have skip: "folder_stats fp objs acc = folder_stats fp (filter (\<lambda>obj. Key obj \<noteq> fp) objs) acc"
    by (induction fp objs acc rule: folder_stats.induct) (simp_all add: Let_def)
  have a1: "folder_info (bucket_storage scenario_listing) ''a/'' =
     Inr \<lparr> info_path = ''a'', info_file_count = 2, info_total_size_bytes = 30,
           info_subfolder_count = 1 \<rparr>"
    by (simp add: folder_info_def bucket_storage_def scenario_listing_def normalize_prefix_def
        rstrip_slash_def)
  have a2: "folder_info (bucket_storage scenario_listing) ''a'' =
     Inr \<lparr> info_path = ''a'', info_file_count = 2, info_total_size_bytes = 30,
           info_subfolder_count = 1 \<rparr>"
    by (simp add: folder_info_def bucket_storage_def scenario_listing_def normalize_prefix_def
        rstrip_slash_def)
  have a3: "folder_info (bucket_storage (S3Object ''a/'' 7 # scenario_listing)) ''a/'' =
     Inr \<lparr> info_path = ''a'', info_file_count = 3, info_total_size_bytes = 30,
           info_subfolder_count = 1 \<rparr>"
    by (simp add: folder_info_def bucket_storage_def scenario_listing_def normalize_prefix_def
        rstrip_slash_def)
  from a1 a2 skip a3 show ?thesis by blast
qed


text \<open>
  C9. The archive mode is a function of the number of objects of the listing alone:
  stored when there are more than 100, deflated otherwise. The legacy download answers
  with an archive of that mode; in a run of the generator the archive being written
  has that mode at every control point from the loop on, under every interleaving, and
  it is this archive that line 355 stores in the registry.
\<close>

theorem compression_by_listing_size:
  "(download_folder st fp = LegacyFile name z \<longrightarrow>
      zcompression z = mode_for (listing_total \<lparr>store = st, folder_path = fp, task_id = tid\<rparr>))
   \<and> (pc (gen s0) = AtListing \<and> emitted (gen s0) = []
        \<and> pc (gen (run rq sched s0)) \<in> {AtStoreBuffer, AtStoreName} \<union> range AtLoop \<longrightarrow>
      zcompression (zip (gen (run rq sched s0))) = mode_for (listing_total rq))
   \<and> (pc g = AtStoreBuffer \<and> reg (task_id rq) = Some t \<longrightarrow>
      buffer_of (fst (gen_step rq reg g)) (task_id rq) = Some (zip g))
   \<and> mode_for n = (if n > 100 then ZIP_STORED else ZIP_DEFLATED)"
proof -
  have legacy: "zcompression z = mode_for (listing_total \<lparr>store = st, folder_path = fp, task_id = tid\<rparr>)"
    if "download_folder st fp = LegacyFile name z"
    using that
    by (auto simp: download_folder_def listing_total_def Let_def mode_for_def legacy_add_mode
             split: sum.splits if_splits)
  have progress: "zcompression (zip (gen (run rq sched s0))) = mode_for (listing_total rq)"
    if "pc (gen s0) = AtListing" "emitted (gen s0) = []"
      "pc (gen (run rq sched s0)) \<in> {AtStoreBuffer, AtStoreName} \<union> range AtLoop"
  proof -
    have "gen_inv rq (gen s0)" using that(1,2) by (simp add: gen_inv_def)
    then have "gen_inv rq (gen (run rq sched s0))" by (rule gen_inv_run)
    with that(3) show ?thesis by (auto simp: gen_inv_def)
  qed
  have stored: "buffer_of (fst (gen_step rq reg g)) (task_id rq) = Some (zip g)"
    if "pc g = AtStoreBuffer" "reg (task_id rq) = Some t"
    using that by (simp add: gen_step_AtStoreBuffer buffer_of_def)
  from legacy progress stored show ?thesis by (simp add: mode_for_def)
qed

theorem compression_by_listing_size_witness:
  "download_folder (bucket_storage scenario_listing) ''a'' =
     LegacyFile ''a.zip'' \<lparr>zcompression = ZIP_DEFLATED,
               zentries = [(''b.txt'', replicate 10 0), (''c/d.txt'', replicate 20 0)],
               zclosed = True\<rparr>
   \<and> mode_for (listing_total scenario_request) = ZIP_DEFLATED
   \<and> pc (gen (run scenario_request [GenStep, GenStep, GenStep, GenStep, GenStep]
        (idle_system Map.empty))) = AtStoreBuffer
   \<and> zcompression (zip (gen (run scenario_request [GenStep, GenStep, GenStep, GenStep, GenStep]
        (idle_system Map.empty)))) = ZIP_DEFLATED
   \<and> buffer_of (fst (gen_step scenario_request
        (tasks (run scenario_request [GenStep, GenStep, GenStep, GenStep, GenStep] (idle_system Map.empty)))
        (gen (run scenario_request [GenStep, GenStep, GenStep, GenStep, GenStep] (idle_system Map.empty)))))
        (task_id scenario_request)
      = Some (zip (gen (run scenario_request [GenStep, GenStep, GenStep, GenStep, GenStep]
          (idle_system Map.empty))))"
proof -
  let ?z = "\<lparr>zcompression = ZIP_DEFLATED,
               zentries = [(''b.txt'', replicate 10 0), (''c/d.txt'', replicate 20 0)],
               zclosed = True\<rparr>"
  let ?s = "run scenario_request [GenStep, GenStep, GenStep, GenStep, GenStep] (idle_system Map.empty)"
  have h1: "download_folder (bucket_storage scenario_listing) ''a'' = LegacyFile ''a.zip'' ?z"
    by code_simp
  have h2: "pc (gen (idle_system Map.empty)) = AtListing" "emitted (gen (idle_system Map.empty)) = []"
    by code_simp+
  have h3: "pc (gen ?s) = AtStoreBuffer" by code_simp
  have h4: "tasks ?s (task_id scenario_request)
      = Some \<lparr>cancelled = False, zip_buffer = None, folder_name = None\<rparr>" by code_simp
  have h5: "mode_for (listing_total scenario_request) = ZIP_DEFLATED" by code_simp
  have h6: "\<lparr>store = bucket_storage scenario_listing, folder_path = ''a'', task_id = ''t1''\<rparr>
      = scenario_request" by (simp add: scenario_request_def)
  note inst = compression_by_listing_size [of "bucket_storage scenario_listing" "''a''" "''a.zip''" ?z
      "''t1''" "idle_system Map.empty" scenario_request
      "[GenStep, GenStep, GenStep, GenStep, GenStep]" "gen ?s" "tasks ?s"
      "\<lparr>cancelled = False, zip_buffer = None, folder_name = None\<rparr>" 0]
  from inst h1 have "zcompression ?z
      = mode_for (listing_total \<lparr>store = bucket_storage scenario_listing, folder_path = ''a'', task_id = ''t1''\<rparr>)"
    by blast
  from inst h2 h3 have a: "zcompression (zip (gen ?s)) = mode_for (listing_total scenario_request)"
    by blast
  from inst h3 h4 have b: "buffer_of (fst (gen_step scenario_request (tasks ?s) (gen ?s)))
      (task_id scenario_request) = Some (zip (gen ?s))" by blast
  from h1 h5 h3 a b show ?thesis by simp
qed


section \<open>Claims about cancellation and the registry\<close>

text \<open>
  C1 (amended). Take a generation run whose task id no other run of the process uses.
  A cancel request for the task that arrives while the generator is in its loop or at
  the re-check after it, that is after the task was registered and before the re-check
  of line 347 has run, leaves no archive in the registry for that task, whatever the
  other runs, the other requests, the cleanup threads and the clock do before and
  after. The re-check itself, when it finds the flag set, changes nothing in the
  registry, emits the cancelled event and ends the generator; this part holds for
  every registry and needs no condition on the ids.
\<close>

theorem cancel_before_recheck_stores_nothing:
  "(pc (gen s0) = AtListing \<and> others_foreign (task_id rq) s0
      \<and> pc (gen (run rq before s0)) = AtLoop objs \<longrightarrow>
      buffer_of (tasks (run rq after (apply_action rq (CancelReq (task_id rq)) (run rq before s0))))
        (task_id rq) = None)
   \<and> (pc g = AtLoop [] \<and> is_cancelled reg (task_id rq) \<longrightarrow>
        fst (gen_step rq reg g) = reg
        \<and> pc (snd (gen_step rq reg g)) = AtEnd
        \<and> emitted (snd (gen_step rq reg g)) = emitted g @ [Cancelled])"
proof -
  have first: "buffer_of (tasks (run rq after (apply_action rq (CancelReq (task_id rq)) (run rq before s0))))
        (task_id rq) = None"
    if start: "pc (gen s0) = AtListing" and fo: "others_foreign (task_id rq) s0"
      and mid: "pc (gen (run rq before s0)) = AtLoop objs"
  proof -
    let ?mid = "run rq before s0"
    let ?hit = "apply_action rq (CancelReq (task_id rq)) ?mid"
    have "no_buffer_while_processing rq s0"
      using start by (simp add: no_buffer_while_processing_def)
    then have "no_buffer_while_processing rq ?mid" using fo by (rule no_buffer_run)
    with mid have "cancel_pending rq ?hit" by (rule cancel_makes_pending)
    moreover have "others_foreign (task_id rq) ?hit"
      by (intro others_foreign_step others_foreign_run fo)
    ultimately have "cancel_pending rq (run rq after ?hit)" by (rule cancel_pending_run)
    then show ?thesis by (rule cancel_pending_no_buffer)
  qed
  have second: "fst (gen_step rq reg g) = reg \<and> pc (snd (gen_step rq reg g)) = AtEnd
        \<and> emitted (snd (gen_step rq reg g)) = emitted g @ [Cancelled]"
    if "pc g = AtLoop []" "is_cancelled reg (task_id rq)"
    using that by (simp add: gen_step_AtLoop_cancelled)
  from first second show ?thesis by blast
qed

theorem cancel_before_recheck_stores_nothing_witness:
  "pc (gen (waiting_system Map.empty [other_request])) = AtListing
   \<and> others_foreign (task_id scenario_request) (waiting_system Map.empty [other_request])
   \<and> pc (gen (run scenario_request [GenStep, OtherStep 0, GenStep, OtherStep 0, GenStep, GenStep]
        (waiting_system Map.empty [other_request]))) = AtLoop []
   \<and> buffer_of (tasks (run scenario_request
          [OtherStep 0, GenStep, OtherStep 0, OtherStep 0, GenStep, OtherStep 0, OtherStep 0, GenStep]
        (apply_action scenario_request (CancelReq (task_id scenario_request))
          (run scenario_request [GenStep, OtherStep 0, GenStep, OtherStep 0, GenStep, GenStep]
             (waiting_system Map.empty [other_request])))))
        (task_id scenario_request) = None
   \<and> emitted (snd (gen_step scenario_request
        [''t1'' \<mapsto> \<lparr>cancelled = True, zip_buffer = None, folder_name = None\<rparr>]
        (fresh_gen\<lparr>pc := AtLoop []\<rparr>))) = [Cancelled]"
proof -
  let ?init = "waiting_system Map.empty [other_request]"
  let ?before = "[GenStep, OtherStep 0, GenStep, OtherStep 0, GenStep, GenStep]"
  let ?after = "[OtherStep 0, GenStep, OtherStep 0, OtherStep 0, GenStep, OtherStep 0, OtherStep 0, GenStep]"
  have h1: "pc (gen ?init) = AtListing" by code_simp
  have h0: "others_foreign (task_id scenario_request) ?init"
    by (simp add: others_foreign_def waiting_system_def scenario_request_def other_request_def)
  have h2: "pc (gen (run scenario_request ?before ?init)) = AtLoop []" by code_simp
  have h3: "pc (fresh_gen\<lparr>pc := AtLoop []\<rparr>) = AtLoop []" by simp
  have h4: "is_cancelled [''t1'' \<mapsto> \<lparr>cancelled = True, zip_buffer = None, folder_name = None\<rparr>]
      (task_id scenario_request)" by (simp add: is_cancelled_def scenario_request_def)
  have h5: "emitted (fresh_gen\<lparr>pc := AtLoop []\<rparr>) = []" by (simp add: fresh_gen_def)
  note inst = cancel_before_recheck_stores_nothing [of ?init scenario_request ?before "[]" ?after
      "fresh_gen\<lparr>pc := AtLoop []\<rparr>"
      "[''t1'' \<mapsto> \<lparr>cancelled = True, zip_buffer = None, folder_name = None\<rparr>]"]
  from inst h1 h0 h2
  have a: "buffer_of (tasks (run scenario_request ?after
        (apply_action scenario_request (CancelReq (task_id scenario_request))
          (run scenario_request ?before ?init)))) (task_id scenario_request) = None" by blast
  from inst h3 h4
  have "emitted (snd (gen_step scenario_request
        [''t1'' \<mapsto> \<lparr>cancelled = True, zip_buffer = None, folder_name = None\<rparr>]
        (fresh_gen\<lparr>pc := AtLoop []\<rparr>))) = emitted (fresh_gen\<lparr>pc := AtLoop []\<rparr>) @ [Cancelled]"
    by blast
  then have b: "emitted (snd (gen_step scenario_request
        [''t1'' \<mapsto> \<lparr>cancelled = True, zip_buffer = None, folder_name = None\<rparr>]
        (fresh_gen\<lparr>pc := AtLoop []\<rparr>))) = [Cancelled]" unfolding h5 by simp
  from h1 h0 h2 a b show ?thesis by blast
qed

text \<open>
  C1 as stated fails, in two ways. For the folder a of the scenario bucket the
  generator passes the re-check, a cancel request is then accepted (the task exists and
  the generator has not finished), and the generator stores the archive all the same:
  the task ends flagged as cancelled and holding a non-empty archive, after a complete
  event. And with a second run under the same task id: the cancel request is accepted
  while the first run is in its loop, the second run then registers the id again, which
  clears the flag, and the first run stores its archive and emits its complete event.
\<close>

theorem cancel_after_recheck_counterexample:
  "pc (gen (run scenario_request [GenStep, GenStep, GenStep, GenStep, GenStep]
        (idle_system Map.empty))) = AtStoreBuffer
   \<and> fst (cancel_download ''t1'' (tasks (run scenario_request
        [GenStep, GenStep, GenStep, GenStep, GenStep] (idle_system Map.empty)))) = CancelOk
   \<and> is_cancelled (tasks (run scenario_request
        [GenStep, GenStep, GenStep, GenStep, GenStep, CancelReq ''t1'', GenStep, GenStep]
        (idle_system Map.empty))) ''t1''
   \<and> buffer_of (tasks (run scenario_request
        [GenStep, GenStep, GenStep, GenStep, GenStep, CancelReq ''t1'', GenStep, GenStep]
        (idle_system Map.empty))) ''t1''
      = Some \<lparr>zcompression = ZIP_DEFLATED,
               zentries = [(''b.txt'', replicate 10 0), (''c/d.txt'', replicate 20 0)],
               zclosed = True\<rparr>
   \<and> emitted (gen (run scenario_request
        [GenStep, GenStep, GenStep, GenStep, GenStep, CancelReq ''t1'', GenStep, GenStep]
        (idle_system Map.empty))) = [Progress 1 2, Progress 2 2, Complete 2]
   \<and> pc (gen (run scenario_request [GenStep, GenStep, GenStep]
        (waiting_system Map.empty [scenario_request]))) = AtLoop [S3Object ''a/c/d.txt'' 20]
   \<and> fst (cancel_download ''t1'' (tasks (run scenario_request [GenStep, GenStep, GenStep]
        (waiting_system Map.empty [scenario_request])))) = CancelOk
   \<and> buffer_of (tasks (run scenario_request
        [GenStep, GenStep, GenStep, CancelReq ''t1'', OtherStep 0, OtherStep 0,
         GenStep, GenStep, GenStep, GenStep]
        (waiting_system Map.empty [scenario_request]))) ''t1''
      = Some \<lparr>zcompression = ZIP_DEFLATED,
               zentries = [(''b.txt'', replicate 10 0), (''c/d.txt'', replicate 20 0)],
               zclosed = True\<rparr>
   \<and> emitted (gen (run scenario_request
        [GenStep, GenStep, GenStep, CancelReq ''t1'', OtherStep 0, OtherStep 0,
         GenStep, GenStep, GenStep, GenStep]
        (waiting_system Map.empty [scenario_request]))) = [Progress 1 2, Progress 2 2, Complete 2]"
  by code_simp


section \<open>Claims about the event stream\<close>

text \<open>
  C6. In a generation run that starts before the listing with an empty stream, under
  every interleaving with the other requests: the \<^verbatim>\<open>current\<close> values of the progress
  events emitted so far are strictly increasing; every progress event has
  \<^verbatim>\<open>current\<close> at most \<^verbatim>\<open>total\<close>, and \<^verbatim>\<open>total\<close> is the number of objects of the
  listing; and once a complete event is in the stream the archive has been closed (the
  \<^verbatim>\<open>with\<close> block was left before) and the generator is at its end.
\<close>

theorem progress_increases_and_complete_after_close:
  "pc (gen s0) = AtListing \<and> emitted (gen s0) = [] \<longrightarrow>
     sorted_wrt (<) (map fst (progress_of (emitted (gen (run rq sched s0)))))
     \<and> (\<forall>p \<in> set (progress_of (emitted (gen (run rq sched s0)))).
           fst p \<le> snd p \<and> snd p = listing_total rq)
     \<and> (has_complete (emitted (gen (run rq sched s0))) \<longrightarrow>
           zclosed (zip (gen (run rq sched s0))) \<and> pc (gen (run rq sched s0)) = AtEnd)"
proof
  assume start: "pc (gen s0) = AtListing \<and> emitted (gen s0) = []"
  let ?g = "gen (run rq sched s0)"
  have "gen_inv rq (gen s0)" using start by (simp add: gen_inv_def)
  then have inv: "gen_inv rq ?g" by (rule gen_inv_run)
  from gen_inv_counted [OF inv] obtain k where k: "k \<le> listing_total rq"
    and cnt: "counted k (listing_total rq) (emitted ?g)" by blast
  have "sorted_wrt (<) (map fst (progress_of (emitted ?g)))"
    using cnt by (rule counted_sorted)
  moreover have "\<forall>p \<in> set (progress_of (emitted ?g)). fst p \<le> snd p \<and> snd p = listing_total rq"
  proof
    fix p assume "p \<in> set (progress_of (emitted ?g))"
    then have "(fst p, snd p) \<in> set (progress_of (emitted ?g))" by simp
    from counted_bound [OF cnt k this] show "fst p \<le> snd p \<and> snd p = listing_total rq" .
  qed
  moreover have "has_complete (emitted ?g) \<longrightarrow> zclosed (zip ?g) \<and> pc ?g = AtEnd"
    using gen_inv_complete [OF inv] by blast
  ultimately show "sorted_wrt (<) (map fst (progress_of (emitted ?g)))
     \<and> (\<forall>p \<in> set (progress_of (emitted ?g)). fst p \<le> snd p \<and> snd p = listing_total rq)
     \<and> (has_complete (emitted ?g) \<longrightarrow> zclosed (zip ?g) \<and> pc ?g = AtEnd)" by blast
qed

theorem progress_increases_and_complete_after_close_witness:
  "pc (gen (idle_system Map.empty)) = AtListing \<and> emitted (gen (idle_system Map.empty)) = []
   \<and> emitted (gen (run scenario_request
        [GenStep, GenStep, GenStep, GenStep, GenStep, GenStep, GenStep] (idle_system Map.empty)))
       = [Progress 1 2, Progress 2 2, Complete 2]
   \<and> listing_total scenario_request = 2
   \<and> sorted_wrt (<) [1, 2 :: nat]
   \<and> zclosed (zip (gen (run scenario_request
        [GenStep, GenStep, GenStep, GenStep, GenStep, GenStep, GenStep] (idle_system Map.empty))))"
proof -
  let ?sched = "[GenStep, GenStep, GenStep, GenStep, GenStep, GenStep, GenStep]"
  have h1: "pc (gen (idle_system Map.empty)) = AtListing \<and> emitted (gen (idle_system Map.empty)) = []"
    by code_simp
  have ev: "emitted (gen (run scenario_request ?sched (idle_system Map.empty)))
       = [Progress 1 2, Progress 2 2, Complete 2]" by code_simp
  have tot: "listing_total scenario_request = 2" by code_simp
  have hc: "has_complete [Progress 1 2, Progress 2 2, Complete 2]"
    by (auto simp: has_complete_def)
  from progress_increases_and_complete_after_close [of "idle_system Map.empty" scenario_request ?sched]
    h1
  have "sorted_wrt (<) (map fst (progress_of (emitted (gen (run scenario_request ?sched (idle_system Map.empty))))))"
    and "has_complete (emitted (gen (run scenario_request ?sched (idle_system Map.empty)))) \<longrightarrow>
           zclosed (zip (gen (run scenario_request ?sched (idle_system Map.empty))))"
    by blast+
  with h1 ev tot hc show ?thesis by simp
qed


text \<open>
  C8. When the listing of the normalized prefix is empty, the generator's first step
  emits the error event "No files found in folder" and ends; under every interleaving
  the stream is that single event from then on, and the registry is what the other
  requests alone make of it: the generator's steps create and store nothing.
\<close>

theorem empty_listing_one_error_no_task:
  "paginate (list_objects_v2 (store rq) (normalize_prefix (folder_path rq))) [] = Inr []
   \<and> pc (gen s0) = AtListing \<and> emitted (gen s0) = [] \<longrightarrow>
     emitted (gen (run rq sched s0)) =
       (if GenStep \<in> set sched then [Failed ''No files found in folder''] else [])
     \<and> (GenStep \<in> set sched \<longrightarrow> pc (gen (run rq sched s0)) = AtEnd)
     \<and> tasks (run rq sched s0) = tasks (run rq (filter (\<lambda>a. a \<noteq> GenStep) sched) s0)
     \<and> tasks (apply_action rq GenStep s0) = tasks s0"
proof
  assume h: "paginate (list_objects_v2 (store rq) (normalize_prefix (folder_path rq))) [] = Inr []
   \<and> pc (gen s0) = AtListing \<and> emitted (gen s0) = []"
  then have empty: "paginate (list_objects_v2 (store rq) (normalize_prefix (folder_path rq))) [] = Inr []"
    and start: "pc (gen s0) = AtListing \<and> emitted (gen s0) = []
         \<or> pc (gen s0) = AtEnd \<and> emitted (gen s0) = [Failed ''No files found in folder'']"
    by simp_all
  have "same_env s0 s0" by (simp add: same_env_def)
  from empty_listing_run [OF empty this start, of sched]
  have r: "same_env (run rq sched s0) (run rq (filter (\<lambda>a. a \<noteq> GenStep) sched) s0)"
    "GenStep \<in> set sched \<longrightarrow>
          pc (gen (run rq sched s0)) = AtEnd
          \<and> emitted (gen (run rq sched s0)) = [Failed ''No files found in folder'']"
    "GenStep \<notin> set sched \<longrightarrow> gen (run rq sched s0) = gen s0"
    by blast+
  from idle_generator_step [OF empty start] have one: "tasks (apply_action rq GenStep s0) = tasks s0"
    by (simp add: same_env_def)
  from r one h
  show "emitted (gen (run rq sched s0)) =
       (if GenStep \<in> set sched then [Failed ''No files found in folder''] else [])
     \<and> (GenStep \<in> set sched \<longrightarrow> pc (gen (run rq sched s0)) = AtEnd)
     \<and> tasks (run rq sched s0) = tasks (run rq (filter (\<lambda>a. a \<noteq> GenStep) sched) s0)
     \<and> tasks (apply_action rq GenStep s0) = tasks s0"
    by (auto simp: same_env_def)
qed

theorem empty_listing_one_error_no_task_witness:
  "paginate (list_objects_v2 (store (scenario_request\<lparr>folder_path := ''zzz''\<rparr>))
      (normalize_prefix (folder_path (scenario_request\<lparr>folder_path := ''zzz''\<rparr>)))) [] = Inr []
   \<and> emitted (gen (run (scenario_request\<lparr>folder_path := ''zzz''\<rparr>) [GenStep, CancelReq ''t1'', GenStep]
        (idle_system Map.empty))) = [Failed ''No files found in folder'']
   \<and> tasks (run (scenario_request\<lparr>folder_path := ''zzz''\<rparr>) [GenStep, CancelReq ''t1'', GenStep]
        (idle_system Map.empty)) ''t1'' = None"
proof -
  let ?rq = "scenario_request\<lparr>folder_path := ''zzz''\<rparr>"
  have h1: "paginate (list_objects_v2 (store ?rq) (normalize_prefix (folder_path ?rq))) [] = Inr []"
    by code_simp
  have h2: "pc (gen (idle_system Map.empty)) = AtListing \<and> emitted (gen (idle_system Map.empty)) = []"
    by code_simp
  have h3: "tasks (run ?rq [CancelReq ''t1''] (idle_system Map.empty)) ''t1'' = None"
    by (simp add: idle_system_def cancel_download_def)
  have f: "filter (\<lambda>a. a \<noteq> GenStep) [GenStep, CancelReq ''t1'', GenStep] = [CancelReq ''t1'']"
    by simp
  from empty_listing_one_error_no_task [of ?rq "idle_system Map.empty" "[GenStep, CancelReq ''t1'', GenStep]"]
    h1 h2
  have e: "emitted (gen (run ?rq [GenStep, CancelReq ''t1'', GenStep] (idle_system Map.empty))) =
       (if GenStep \<in> set [GenStep, CancelReq ''t1'', GenStep]
        then [Failed ''No files found in folder''] else [])"
    and t: "tasks (run ?rq [GenStep, CancelReq ''t1'', GenStep] (idle_system Map.empty)) =
       tasks (run ?rq (filter (\<lambda>a. a \<noteq> GenStep) [GenStep, CancelReq ''t1'', GenStep])
         (idle_system Map.empty))"
    by blast+
  from e have e': "emitted (gen (run ?rq [GenStep, CancelReq ''t1'', GenStep] (idle_system Map.empty)))
      = [Failed ''No files found in folder'']" by (simp del: run.simps)
  from t h3 have t': "tasks (run ?rq [GenStep, CancelReq ''t1'', GenStep] (idle_system Map.empty)) ''t1''
      = None" unfolding f by (simp del: run.simps)
  from h1 e' t' show ?thesis by blast
qed


text \<open>
  C3 (amended). Registering a task under an id that is already in the registry does
  not fail: line 305 replaces the existing entry by a fresh one, not cancelled and
  without archive or folder name, emits nothing and goes on to the loop. So a run with
  a listing that is not empty, started while the registry holds a task of the same id,
  has after its first two steps reset that task: whatever archive it held is gone and
  a zip request is answered "not ready".
\<close>

theorem registering_replaces_existing_task:
  "(pc g = AtInit \<and> reg (task_id rq) = Some t \<longrightarrow>
      fst (gen_step rq reg g) =
        reg(task_id rq \<mapsto> \<lparr>cancelled = False, zip_buffer = None, folder_name = None\<rparr>)
      \<and> emitted (snd (gen_step rq reg g)) = emitted g
      \<and> pc (snd (gen_step rq reg g)) = AtLoop (objects g))
   \<and> (pc (gen s0) = AtListing \<and> tasks s0 (task_id rq) = Some t
        \<and> paginate (list_objects_v2 (store rq) (normalize_prefix (folder_path rq))) [] = Inr objs
        \<and> objs \<noteq> [] \<longrightarrow>
      tasks (run rq [GenStep, GenStep] s0) (task_id rq)
        = Some \<lparr>cancelled = False, zip_buffer = None, folder_name = None\<rparr>
      \<and> emitted (gen (run rq [GenStep, GenStep] s0)) = emitted (gen s0)
      \<and> pc (gen (run rq [GenStep, GenStep] s0)) = AtLoop objs
      \<and> get_zip (task_id rq) (tasks (run rq [GenStep, GenStep] s0)) = NotReady)"
proof -
  have one: "fst (gen_step rq reg g) =
        reg(task_id rq \<mapsto> \<lparr>cancelled = False, zip_buffer = None, folder_name = None\<rparr>)
      \<and> emitted (snd (gen_step rq reg g)) = emitted g
      \<and> pc (snd (gen_step rq reg g)) = AtLoop (objects g)"
    if "pc g = AtInit" for g reg
    using that by (simp add: gen_step_AtInit)
  have two: "tasks (run rq [GenStep, GenStep] s0) (task_id rq)
        = Some \<lparr>cancelled = False, zip_buffer = None, folder_name = None\<rparr>
      \<and> emitted (gen (run rq [GenStep, GenStep] s0)) = emitted (gen s0)
      \<and> pc (gen (run rq [GenStep, GenStep] s0)) = AtLoop objs
      \<and> get_zip (task_id rq) (tasks (run rq [GenStep, GenStep] s0)) = NotReady"
    if start: "pc (gen s0) = AtListing"
      and listing: "paginate (list_objects_v2 (store rq) (normalize_prefix (folder_path rq))) [] = Inr objs"
      and ne: "objs \<noteq> []"
  proof -
    let ?s1 = "apply_action rq GenStep s0"
    have s1: "tasks ?s1 = tasks s0" "gen ?s1 = (gen s0)\<lparr>pc := AtInit, objects := objs\<rparr>"
      using start listing ne by (simp_all add: gen_step_AtListing)
    then have pc1: "pc (gen ?s1) = AtInit" by simp
    from one [OF pc1, of "tasks ?s1"] s1
    have "tasks (apply_action rq GenStep ?s1) (task_id rq)
        = Some \<lparr>cancelled = False, zip_buffer = None, folder_name = None\<rparr>"
      "emitted (gen (apply_action rq GenStep ?s1)) = emitted (gen s0)"
      "pc (gen (apply_action rq GenStep ?s1)) = AtLoop objs"
      by (simp_all add: split_beta)
    then show ?thesis by (simp add: get_zip_def)
  qed
  from one two show ?thesis by blast
qed

theorem registering_replaces_existing_task_witness:
  "pc (gen (run scenario_request [GenStep] (idle_system [''t1'' \<mapsto> stale_task]))) = AtInit
   \<and> tasks (run scenario_request [GenStep] (idle_system [''t1'' \<mapsto> stale_task])) (task_id scenario_request)
       = Some stale_task
   \<and> fst (gen_step scenario_request
        (tasks (run scenario_request [GenStep] (idle_system [''t1'' \<mapsto> stale_task])))
        (gen (run scenario_request [GenStep] (idle_system [''t1'' \<mapsto> stale_task])))) ''t1''
       = Some \<lparr>cancelled = False, zip_buffer = None, folder_name = None\<rparr>
   \<and> get_zip ''t1'' (tasks (idle_system [''t1'' \<mapsto> stale_task]))
       = SendFile ''old.zip'' \<lparr>zcompression = ZIP_STORED, zentries = [(''old.txt'', [1])], zclosed = True\<rparr>
   \<and> get_zip (task_id scenario_request)
        (tasks (run scenario_request [GenStep, GenStep] (idle_system [''t1'' \<mapsto> stale_task]))) = NotReady"
proof -
  let ?init = "idle_system [''t1'' \<mapsto> stale_task]"
  let ?s = "run scenario_request [GenStep] ?init"
  let ?objs = "[S3Object ''a/b.txt'' 10, S3Object ''a/c/d.txt'' 20]"
  have h1: "pc (gen ?s) = AtInit" by code_simp
  have h2: "tasks ?s (task_id scenario_request) = Some stale_task" by code_simp
  have h3: "task_id scenario_request = ''t1''" by (simp add: scenario_request_def)
  have h4: "pc (gen ?init) = AtListing" by (simp add: idle_system_def fresh_gen_def)
  have h5: "tasks ?init (task_id scenario_request) = Some stale_task"
    by (simp add: idle_system_def scenario_request_def)
  have h6: "paginate (list_objects_v2 (store scenario_request)
      (normalize_prefix (folder_path scenario_request))) [] = Inr ?objs" by code_simp
  have h7: "?objs \<noteq> []" by simp
  have h8: "get_zip ''t1'' (tasks ?init)
       = SendFile ''old.zip'' \<lparr>zcompression = ZIP_STORED, zentries = [(''old.txt'', [1])], zclosed = True\<rparr>"
    by code_simp
  note inst = registering_replaces_existing_task [of "gen ?s" "tasks ?s" scenario_request stale_task ?init ?objs]
  from inst h1 h2
  have "fst (gen_step scenario_request (tasks ?s) (gen ?s)) =
       (tasks ?s)(task_id scenario_request \<mapsto> \<lparr>cancelled = False, zip_buffer = None, folder_name = None\<rparr>)"
    by blast
  then have a: "fst (gen_step scenario_request (tasks ?s) (gen ?s)) ''t1''
       = Some \<lparr>cancelled = False, zip_buffer = None, folder_name = None\<rparr>"
    unfolding h3 by simp
  from inst h4 h5 h6 h7
  have b: "get_zip (task_id scenario_request) (tasks (run scenario_request [GenStep, GenStep] ?init)) = NotReady"
    by blast
  from h1 h2 a h8 b show ?thesis by blast
qed

text \<open>
  C3 as stated fails. The registry holds a task t1 with an archive; a run for the
  scenario folder under the same id overwrites it with a fresh entry, no error event
  is emitted, and the run goes on to its complete event.
\<close>

theorem duplicate_task_counterexample:
  "tasks (idle_system [''t1'' \<mapsto> stale_task]) ''t1'' = Some stale_task
   \<and> tasks (run scenario_request [GenStep, GenStep] (idle_system [''t1'' \<mapsto> stale_task])) ''t1''
       = Some \<lparr>cancelled = False, zip_buffer = None, folder_name = None\<rparr>
   \<and> emitted (gen (run scenario_request [GenStep, GenStep] (idle_system [''t1'' \<mapsto> stale_task]))) = []
   \<and> emitted (gen (run scenario_request
        [GenStep, GenStep, GenStep, GenStep, GenStep, GenStep, GenStep]
        (idle_system [''t1'' \<mapsto> stale_task]))) = [Progress 1 2, Progress 2 2, Complete 2]"
  by code_simp


text \<open>
  C4 (amended). A task entry is removed only by a cleanup thread of its id whose
  sleep is over. A zip request that returns the archive starts such a thread, which
  sleeps 60 time units from the clock of the request; a zip request that finds no task
  or no archive starts none; a cleanup thread does nothing while its sleep lasts and
  removes the entry once it is over. No other action removes an entry: no step of any
  generator on any of its paths, no cancel request, no zip request, no tick of the
  clock. So a generation that finds the flag set emits the cancelled event, ends, and
  leaves the registry as it is, the entry still there: a zip request right after is
  not answered "not found". When no other run uses the task id and the run started
  before its listing, the entry has no archive and every later zip request is answered
  "not ready", under every interleaving in which no cleanup thread of that id runs.
\<close>

theorem entry_removed_only_by_cleanup:
  "(get_zip tid (tasks s) = SendFile name z \<longrightarrow>
      apply_action rq (GetZipReq tid) s = s\<lparr>sleepers := sleepers s @ [(tid, clock s + 60)]\<rparr>)
   \<and> (get_zip tid (tasks s) \<in> {NotFound, NotReady} \<longrightarrow> apply_action rq (GetZipReq tid) s = s)
   \<and> ((\<forall>th \<in> set (sleepers s). fst th = tid \<longrightarrow> clock s < snd th) \<longrightarrow>
        apply_action rq (CleanupWake tid) s = s)
   \<and> ((tid, due) \<in> set (sleepers s) \<and> due \<le> clock s \<longrightarrow>
        tasks (apply_action rq (CleanupWake tid) s) tid = None)
   \<and> (tasks s tid \<noteq> None \<and> tasks (apply_action rq a s) tid = None \<longrightarrow>
        a = CleanupWake tid \<and> (\<exists>th \<in> set (sleepers s). fst th = tid \<and> snd th \<le> clock s))
   \<and> (reg tid \<noteq> None \<longrightarrow>
        fst (gen_step rq reg g) tid \<noteq> None \<and> snd (cancel_download tid' reg) tid \<noteq> None)
   \<and> (pc (gen s) = AtLoop objs \<and> is_cancelled (tasks s) (task_id rq) \<longrightarrow>
        tasks (apply_action rq GenStep s) = tasks s
        \<and> emitted (gen (apply_action rq GenStep s)) = emitted (gen s) @ [Cancelled]
        \<and> pc (gen (apply_action rq GenStep s)) = AtEnd
        \<and> get_zip (task_id rq) (tasks (apply_action rq GenStep s)) \<noteq> NotFound)
   \<and> (pc (gen s0) = AtListing \<and> others_foreign (task_id rq) s0
        \<and> pc (gen (run rq sched s0)) = AtLoop objs
        \<and> is_cancelled (tasks (run rq sched s0)) (task_id rq)
        \<and> CleanupWake (task_id rq) \<notin> set later \<longrightarrow>
        get_zip (task_id rq) (tasks (run rq later (apply_action rq GenStep (run rq sched s0))))
          = NotReady)"
proof -
  have sched1: "apply_action rq (GetZipReq tid) s = s\<lparr>sleepers := sleepers s @ [(tid, clock s + 60)]\<rparr>"
    if "get_zip tid (tasks s) = SendFile name z"
    using that by (simp add: eviction_delay_def)
  have sched2: "apply_action rq (GetZipReq tid) s = s" if "get_zip tid (tasks s) \<in> {NotFound, NotReady}"
    using that by auto
  have asleep: "apply_action rq (CleanupWake tid) s = s"
    if "\<forall>th \<in> set (sleepers s). fst th = tid \<longrightarrow> clock s < snd th"
  proof -
    have "awake tid s = None"
      unfolding awake_def find_None_iff using that by (auto simp: not_le)
    then show ?thesis by simp
  qed
  have fires: "tasks (apply_action rq (CleanupWake tid) s) tid = None"
    if "(tid, due) \<in> set (sleepers s) \<and> due \<le> clock s"
  proof -
    have "awake tid s \<noteq> None"
      unfolding awake_def find_None_iff using that by force
    then show ?thesis by auto
  qed
  have only: "a = CleanupWake tid \<and> (\<exists>th \<in> set (sleepers s). fst th = tid \<and> snd th \<le> clock s)"
    if "tasks s tid \<noteq> None \<and> tasks (apply_action rq a s) tid = None"
  proof -
    from that removed_only_by_cleanup [of s tid rq a]
    have a: "a = CleanupWake tid" and "awake tid s \<noteq> None" by blast+
    then obtain th where "find (\<lambda>th. fst th = tid \<and> snd th \<le> clock s) (sleepers s) = Some th"
      unfolding awake_def by blast
    then have "th \<in> set (sleepers s)" "fst th = tid \<and> snd th \<le> clock s"
      by (auto simp: find_Some_iff)
    with a show ?thesis by blast
  qed
  have keeps: "fst (gen_step rq reg g) tid \<noteq> None \<and> snd (cancel_download tid' reg) tid \<noteq> None"
    if "reg tid \<noteq> None"
    using that gen_step_keeps_tasks [of reg tid rq g]
    by (auto simp: cancel_download_def split: option.splits)
  have step: "tasks (apply_action rq GenStep s) = tasks s
        \<and> emitted (gen (apply_action rq GenStep s)) = emitted (gen s) @ [Cancelled]
        \<and> pc (gen (apply_action rq GenStep s)) = AtEnd
        \<and> get_zip (task_id rq) (tasks (apply_action rq GenStep s)) \<noteq> NotFound"
    if "pc (gen s) = AtLoop objs \<and> is_cancelled (tasks s) (task_id rq)"
    using that cancelled_step_keeps_entry [of s objs rq] by blast
  have stays: "get_zip (task_id rq) (tasks (run rq later (apply_action rq GenStep (run rq sched s0))))
          = NotReady"
    if start: "pc (gen s0) = AtListing" and fo: "others_foreign (task_id rq) s0"
      and mid: "pc (gen (run rq sched s0)) = AtLoop objs"
      and flag: "is_cancelled (tasks (run rq sched s0)) (task_id rq)"
      and later: "CleanupWake (task_id rq) \<notin> set later"
  proof -
    have "no_buffer_while_processing rq s0"
      using start by (simp add: no_buffer_while_processing_def)
    then have "no_buffer_while_processing rq (run rq sched s0)" using fo by (rule no_buffer_run)
    moreover have "others_foreign (task_id rq) (run rq sched s0)"
      using fo by (rule others_foreign_run)
    ultimately have "left_not_ready rq (apply_action rq GenStep (run rq sched s0))"
      using mid flag by (rule cancelled_step_left_not_ready)
    then have "left_not_ready rq (run rq later (apply_action rq GenStep (run rq sched s0)))"
      using later by (rule left_not_ready_run)
    then show ?thesis by (rule left_not_ready_get_zip)
  qed
  from sched1 sched2 asleep fires only keeps step stays show ?thesis by blast
qed

theorem entry_removed_only_by_cleanup_witness:
  "get_zip ''t1'' (tasks (run scenario_request
       [GenStep, GenStep, GenStep, GenStep, GenStep, GenStep, GenStep] (idle_system Map.empty)))
     = SendFile ''a.zip'' \<lparr>zcompression = ZIP_DEFLATED,
               zentries = [(''b.txt'', replicate 10 0), (''c/d.txt'', replicate 20 0)],
               zclosed = True\<rparr>
   \<and> sleepers (apply_action scenario_request (GetZipReq ''t1'') (run scenario_request
       [GenStep, GenStep, GenStep, GenStep, GenStep, GenStep, GenStep] (idle_system Map.empty)))
     = [(''t1'', 60)]
   \<and> apply_action scenario_request (GetZipReq ''t1'') (idle_system Map.empty) = idle_system Map.empty
   \<and> apply_action scenario_request (CleanupWake ''t1'')
        \<lparr>tasks = [''t1'' \<mapsto> stale_task], gen = fresh_gen, others = [], sleepers = [(''t1'', 60)], clock = 59\<rparr>
     = \<lparr>tasks = [''t1'' \<mapsto> stale_task], gen = fresh_gen, others = [], sleepers = [(''t1'', 60)], clock = 59\<rparr>
   \<and> tasks (apply_action scenario_request (CleanupWake ''t1'')
        \<lparr>tasks = [''t1'' \<mapsto> stale_task], gen = fresh_gen, others = [], sleepers = [(''t1'', 60)], clock = 60\<rparr>) ''t1''
     = None
   \<and> (\<exists>th \<in> set [(''t1'', 60 :: nat)]. fst th = ''t1'' \<and> snd th \<le> (60 :: nat))
   \<and> fst (gen_step scenario_request [''t1'' \<mapsto> stale_task] fresh_gen) ''t1'' \<noteq> None
   \<and> snd (cancel_download ''t1'' [''t1'' \<mapsto> stale_task]) ''t1'' \<noteq> None
   \<and> pc (gen (run scenario_request [GenStep, OtherStep 0, GenStep, GenStep, CancelReq ''t1'']
        (waiting_system Map.empty [other_request]))) = AtLoop [S3Object ''a/c/d.txt'' 20]
   \<and> is_cancelled (tasks (run scenario_request [GenStep, OtherStep 0, GenStep, GenStep, CancelReq ''t1'']
        (waiting_system Map.empty [other_request]))) (task_id scenario_request)
   \<and> get_zip (task_id scenario_request) (tasks (apply_action scenario_request GenStep
        (run scenario_request [GenStep, OtherStep 0, GenStep, GenStep, CancelReq ''t1'']
          (waiting_system Map.empty [other_request]))))
     \<noteq> NotFound
   \<and> get_zip (task_id scenario_request) (tasks (run scenario_request
        [OtherStep 0, Tick, CancelReq ''t1'', GetZipReq ''t1'', OtherStep 0, GenStep, CleanupWake ''t2'']
        (apply_action scenario_request GenStep
          (run scenario_request [GenStep, OtherStep 0, GenStep, GenStep, CancelReq ''t1'']
            (waiting_system Map.empty [other_request])))))
     = NotReady"
proof -
  let ?done = "run scenario_request
       [GenStep, GenStep, GenStep, GenStep, GenStep, GenStep, GenStep] (idle_system Map.empty)"
  let ?z = "\<lparr>zcompression = ZIP_DEFLATED,
               zentries = [(''b.txt'', replicate 10 0), (''c/d.txt'', replicate 20 0)],
               zclosed = True\<rparr>"
  let ?init = "waiting_system Map.empty [other_request]"
  let ?sched = "[GenStep, OtherStep 0, GenStep, GenStep, CancelReq ''t1'']"
  let ?mid = "run scenario_request ?sched ?init"
  let ?later = "[OtherStep 0, Tick, CancelReq ''t1'', GetZipReq ''t1'', OtherStep 0, GenStep, CleanupWake ''t2'']"
  let ?early = "\<lparr>tasks = [''t1'' \<mapsto> stale_task], gen = fresh_gen, others = [], sleepers = [(''t1'', 60)], clock = 59\<rparr>"
  let ?late = "\<lparr>tasks = [''t1'' \<mapsto> stale_task], gen = fresh_gen, others = [], sleepers = [(''t1'', 60)], clock = 60\<rparr>"
  have h1: "get_zip ''t1'' (tasks ?done) = SendFile ''a.zip'' ?z" by code_simp
  have h2: "sleepers ?done = []" "clock ?done = 0" by code_simp+
  have h3: "pc (gen ?init) = AtListing" by code_simp
  have h3': "others_foreign (task_id scenario_request) ?init"
    by (simp add: others_foreign_def waiting_system_def scenario_request_def other_request_def)
  have h4: "pc (gen ?mid) = AtLoop [S3Object ''a/c/d.txt'' 20]" by code_simp
  have h5: "is_cancelled (tasks ?mid) (task_id scenario_request)" by code_simp
  have h5': "CleanupWake (task_id scenario_request) \<notin> set ?later"
    by (simp add: scenario_request_def)
  have h6: "get_zip ''t1'' (tasks (idle_system Map.empty)) \<in> {NotFound, NotReady}"
    by (simp add: get_zip_def idle_system_def)
  have h7: "\<forall>th \<in> set (sleepers ?early). fst th = ''t1'' \<longrightarrow> clock ?early < snd th" by simp
  have h8: "(''t1'', 60) \<in> set (sleepers ?late) \<and> 60 \<le> clock ?late" by simp
  have h9: "[''t1'' \<mapsto> stale_task] ''t1'' \<noteq> None" by simp
  have h10: "tasks ?late ''t1'' \<noteq> None" by simp
  from entry_removed_only_by_cleanup [of "''t1''" ?done "''a.zip''" ?z scenario_request] h1
  have "apply_action scenario_request (GetZipReq ''t1'') ?done
      = ?done\<lparr>sleepers := sleepers ?done @ [(''t1'', clock ?done + 60)]\<rparr>" by blast
  then have a: "sleepers (apply_action scenario_request (GetZipReq ''t1'') ?done) = [(''t1'', 60)]"
    unfolding h2 by simp
  from entry_removed_only_by_cleanup [of "''t1''" "idle_system Map.empty" _ _ scenario_request] h6
  have c: "apply_action scenario_request (GetZipReq ''t1'') (idle_system Map.empty) = idle_system Map.empty"
    by blast
  from entry_removed_only_by_cleanup [of "''t1''" ?early _ _ scenario_request] h7
  have d: "apply_action scenario_request (CleanupWake ''t1'') ?early = ?early" by blast
  from entry_removed_only_by_cleanup [of "''t1''" ?late _ _ scenario_request 60] h8
  have e: "tasks (apply_action scenario_request (CleanupWake ''t1'') ?late) ''t1'' = None" by blast
  from entry_removed_only_by_cleanup [of "''t1''" ?late _ _ scenario_request _ "CleanupWake ''t1''"] h10 e
  have "\<exists>th \<in> set (sleepers ?late). fst th = ''t1'' \<and> snd th \<le> clock ?late" by blast
  then have e': "\<exists>th \<in> set [(''t1'', 60 :: nat)]. fst th = ''t1'' \<and> snd th \<le> (60 :: nat)" by simp
  from entry_removed_only_by_cleanup [of "''t1''" _ _ _ scenario_request _ _ "[''t1'' \<mapsto> stale_task]"
      fresh_gen "''t1''"] h9
  have f: "fst (gen_step scenario_request [''t1'' \<mapsto> stale_task] fresh_gen) ''t1'' \<noteq> None"
    "snd (cancel_download ''t1'' [''t1'' \<mapsto> stale_task]) ''t1'' \<noteq> None" by blast+
  from entry_removed_only_by_cleanup [of _ ?mid _ _ scenario_request _ _ _ _ _ "[S3Object ''a/c/d.txt'' 20]"]
    h4 h5
  have g: "get_zip (task_id scenario_request) (tasks (apply_action scenario_request GenStep ?mid))
     \<noteq> NotFound" by blast
  from entry_removed_only_by_cleanup [of _ _ _ _ scenario_request _ _ _ _ _ "[S3Object ''a/c/d.txt'' 20]"
      ?init ?sched ?later] h3 h3' h4 h5 h5'
  have b: "get_zip (task_id scenario_request)
      (tasks (run scenario_request ?later (apply_action scenario_request GenStep ?mid))) = NotReady"
    by blast
  from h1 a c d e e' f h4 h5 g b show ?thesis by blast
qed

text \<open>
  C4 as stated fails. The run for the scenario folder is cancelled after its first
  file: the stream is one progress event and the cancelled event, the generator has
  ended, and the entry of t1 is still in the registry, so that a zip request is
  answered "not ready" and not "not found".
\<close>

theorem cancelled_task_stays_counterexample:
  "emitted (gen (run scenario_request [GenStep, GenStep, GenStep, CancelReq ''t1'', GenStep]
      (idle_system Map.empty))) = [Progress 1 2, Cancelled]
   \<and> pc (gen (run scenario_request [GenStep, GenStep, GenStep, CancelReq ''t1'', GenStep]
      (idle_system Map.empty))) = AtEnd
   \<and> tasks (run scenario_request [GenStep, GenStep, GenStep, CancelReq ''t1'', GenStep]
      (idle_system Map.empty)) ''t1''
       = Some \<lparr>cancelled = True, zip_buffer = None, folder_name = None\<rparr>
   \<and> get_zip ''t1'' (tasks (run scenario_request [GenStep, GenStep, GenStep, CancelReq ''t1'', GenStep]
      (idle_system Map.empty))) = NotReady"
  by code_simp


section \<open>Claims about eviction\<close>

text \<open>
  C2. A zip request that returns the archive schedules the eviction of the task id:
  a cleanup thread that sleeps 60 time units from the clock of the request. For every
  task id whose eviction has been scheduled, once the delay has elapsed and the cleanup
  thread runs, the entry is removed and a zip request is answered "not found". This
  holds whatever the entry holds at that time and whatever happened in between: an
  archive that was fetched, an archive that never was (the id registered again and a
  new archive stored since the retrieval that scheduled the eviction), or no archive.
  Until it runs the scheduled thread stays scheduled. After the removal the answer
  stays "not found" for as long as no run registers the id again. Without zip requests
  no cleanup thread appears.
\<close>

theorem eviction_follows_retrieval:
  "(get_zip tid (tasks s) = SendFile name z \<longrightarrow>
      sleepers (apply_action rq (GetZipReq tid) s) = sleepers s @ [(tid, clock s + 60)]
      \<and> get_zip tid (tasks (run rq (GetZipReq tid # replicate 60 Tick @ [CleanupWake tid]) s))
          = NotFound)
   \<and> ((tid, due) \<in> set (sleepers s) \<and> due \<le> clock s \<longrightarrow>
        tasks (apply_action rq (CleanupWake tid) s) tid = None
        \<and> get_zip tid (tasks (apply_action rq (CleanupWake tid) s)) = NotFound)
   \<and> ((tid, due) \<in> set (sleepers s) \<and> CleanupWake tid \<notin> set mid
        \<and> due \<le> clock (run rq mid s) \<longrightarrow>
        (tid, due) \<in> set (sleepers (run rq mid s))
        \<and> get_zip tid (tasks (run rq (mid @ [CleanupWake tid]) s)) = NotFound)
   \<and> (tasks s tid = None \<and> task_id rq \<noteq> tid \<and> others_foreign tid s \<longrightarrow>
        get_zip tid (tasks (run rq sched s)) = NotFound)
   \<and> ((\<forall>tid'. GetZipReq tid' \<notin> set sched) \<longrightarrow>
        set (sleepers (run rq sched s)) \<subseteq> set (sleepers s))"
proof -
  have whole: "sleepers (apply_action rq (GetZipReq tid) s) = sleepers s @ [(tid, clock s + 60)]
      \<and> get_zip tid (tasks (run rq (GetZipReq tid # replicate 60 Tick @ [CleanupWake tid]) s))
          = NotFound" if fetched: "get_zip tid (tasks s) = SendFile name z"
  proof -
    let ?s1 = "s\<lparr>sleepers := sleepers s @ [(tid, clock s + 60)]\<rparr>"
    let ?s2 = "?s1\<lparr>clock := clock ?s1 + 60\<rparr>"
    have one: "apply_action rq (GetZipReq tid) s = ?s1"
      using fetched by (simp add: eviction_delay_def)
    then have r: "run rq (GetZipReq tid # replicate 60 Tick @ [CleanupWake tid]) s
        = apply_action rq (CleanupWake tid) ?s2"
      by (simp add: run_append run_ticks)
    have "awake tid ?s2 \<noteq> None"
      by (rule awake_due [of tid "clock s + 60"]) simp_all
    then have "get_zip tid (tasks (apply_action rq (CleanupWake tid) ?s2)) = NotFound"
      by (rule cleanup_not_found)
    then have "get_zip tid (tasks (run rq (GetZipReq tid # replicate 60 Tick @ [CleanupWake tid]) s))
        = NotFound" unfolding r .
    moreover have "sleepers (apply_action rq (GetZipReq tid) s) = sleepers s @ [(tid, clock s + 60)]"
      unfolding one by simp
    ultimately show ?thesis by blast
  qed
  have fires: "tasks (apply_action rq (CleanupWake tid) s) tid = None
        \<and> get_zip tid (tasks (apply_action rq (CleanupWake tid) s)) = NotFound"
    if "(tid, due) \<in> set (sleepers s) \<and> due \<le> clock s"
  proof -
    from that have aw: "awake tid s \<noteq> None" by (intro awake_due [of tid due]) simp_all
    then have "tasks (apply_action rq (CleanupWake tid) s) tid = None" by auto
    with cleanup_not_found [OF aw, of rq] show ?thesis by blast
  qed
  have waits: "(tid, due) \<in> set (sleepers (run rq mid s))
        \<and> get_zip tid (tasks (run rq (mid @ [CleanupWake tid]) s)) = NotFound"
    if "(tid, due) \<in> set (sleepers s) \<and> CleanupWake tid \<notin> set mid \<and> due \<le> clock (run rq mid s)"
  proof -
    from that have kept: "(tid, due) \<in> set (sleepers (run rq mid s))"
      by (intro sleeper_kept_run) simp_all
    with that have "awake tid (run rq mid s) \<noteq> None" by (intro awake_due [of tid due]) simp_all
    then have "get_zip tid (tasks (apply_action rq (CleanupWake tid) (run rq mid s))) = NotFound"
      by (rule cleanup_not_found)
    then have "get_zip tid (tasks (run rq (mid @ [CleanupWake tid]) s)) = NotFound"
      by (simp add: run_append)
    with kept show ?thesis by blast
  qed
  have gone: "get_zip tid (tasks (run rq sched s)) = NotFound"
    if "tasks s tid = None \<and> task_id rq \<noteq> tid \<and> others_foreign tid s"
  proof -
    from that have "tasks s tid = None" "unused_id rq tid s" by (simp_all add: unused_id_def)
    then have "tasks (run rq sched s) tid = None" by (rule absent_run)
    then show ?thesis by (simp add: get_zip_def)
  qed
  have only: "set (sleepers (run rq sched s)) \<subseteq> set (sleepers s)"
    if "\<forall>tid'. GetZipReq tid' \<notin> set sched"
    using that by (rule sleepers_run)
  from whole fires waits gone only show ?thesis by blast
qed

theorem eviction_follows_retrieval_witness:
  "get_zip ''t1'' (tasks (idle_system [''t1'' \<mapsto> stale_task]))
     = SendFile ''old.zip'' \<lparr>zcompression = ZIP_STORED, zentries = [(''old.txt'', [1])], zclosed = True\<rparr>
   \<and> sleepers (apply_action scenario_request (GetZipReq ''t1'') (idle_system [''t1'' \<mapsto> stale_task]))
     = [(''t1'', 60)]
   \<and> get_zip ''t1'' (tasks (run scenario_request
        (GetZipReq ''t1'' # replicate 60 Tick @ [CleanupWake ''t1''])
        (idle_system [''t1'' \<mapsto> stale_task]))) = NotFound
   \<and> get_zip ''t1'' (tasks (apply_action scenario_request (CleanupWake ''t1'')
        \<lparr>tasks = [''t1'' \<mapsto> stale_task], gen = fresh_gen, others = [], sleepers = [(''t1'', 60)], clock = 60\<rparr>))
     = NotFound
   \<and> get_zip ''t1'' (tasks (run scenario_request
        ([GenStep, GenStep, GenStep, GenStep, GenStep, GenStep, GenStep] @ replicate 60 Tick)
        (apply_action scenario_request (GetZipReq ''t1'') (idle_system [''t1'' \<mapsto> stale_task]))))
     = SendFile ''a.zip'' \<lparr>zcompression = ZIP_DEFLATED,
               zentries = [(''b.txt'', replicate 10 0), (''c/d.txt'', replicate 20 0)],
               zclosed = True\<rparr>
   \<and> get_zip ''t1'' (tasks (run scenario_request
        (([GenStep, GenStep, GenStep, GenStep, GenStep, GenStep, GenStep] @ replicate 60 Tick)
           @ [CleanupWake ''t1''])
        (apply_action scenario_request (GetZipReq ''t1'') (idle_system [''t1'' \<mapsto> stale_task]))))
     = NotFound
   \<and> get_zip ''t1'' (tasks (run other_request
        [GenStep, GenStep, CancelReq ''t1'', GetZipReq ''t1'', Tick, CleanupWake ''t1'', GenStep]
        (idle_system Map.empty))) = NotFound
   \<and> set (sleepers (run scenario_request [Tick, CleanupWake ''t1'', CancelReq ''t1'', GenStep]
        \<lparr>tasks = [''t1'' \<mapsto> stale_task], gen = fresh_gen, others = [], sleepers = [(''t1'', 60)], clock = 60\<rparr>))
     \<subseteq> {(''t1'', 60)}"
proof -
  let ?old = "idle_system [''t1'' \<mapsto> stale_task]"
  let ?oz = "\<lparr>zcompression = ZIP_STORED, zentries = [(''old.txt'', [1 :: nat])], zclosed = True\<rparr>"
  let ?z = "\<lparr>zcompression = ZIP_DEFLATED,
               zentries = [(''b.txt'', replicate 10 0), (''c/d.txt'', replicate 20 0)],
               zclosed = True\<rparr>"
  let ?late = "\<lparr>tasks = [''t1'' \<mapsto> stale_task], gen = fresh_gen, others = [], sleepers = [(''t1'', 60)], clock = 60\<rparr>"
  let ?fetched = "apply_action scenario_request (GetZipReq ''t1'') ?old"
  let ?mid = "[GenStep, GenStep, GenStep, GenStep, GenStep, GenStep, GenStep] @ replicate 60 Tick"
  let ?quiet = "[GenStep, GenStep, CancelReq ''t1'', GetZipReq ''t1'', Tick, CleanupWake ''t1'', GenStep]"
  have h1: "get_zip ''t1'' (tasks ?old) = SendFile ''old.zip'' ?oz" by code_simp
  have h1': "sleepers ?old = []" "clock ?old = 0" by (simp_all add: idle_system_def)
  have h2: "(''t1'', 60) \<in> set (sleepers ?late) \<and> 60 \<le> clock ?late" by simp
  have h3: "\<forall>tid'. GetZipReq tid' \<notin> set [Tick, CleanupWake ''t1'', CancelReq ''t1'', GenStep]" by simp
  have h4: "(''t1'', 60) \<in> set (sleepers ?fetched)" by code_simp
  have h5: "CleanupWake ''t1'' \<notin> set ?mid" by simp
  have h6: "60 \<le> clock (run scenario_request ?mid ?fetched)" by code_simp
  have h7: "get_zip ''t1'' (tasks (run scenario_request ?mid ?fetched)) = SendFile ''a.zip'' ?z"
    by code_simp
  have h8: "tasks (idle_system Map.empty) ''t1'' = None \<and> task_id other_request \<noteq> ''t1''
      \<and> others_foreign ''t1'' (idle_system Map.empty)"
    by (simp add: idle_system_def other_request_def others_foreign_def)
  from eviction_follows_retrieval [of "''t1''" ?old "''old.zip''" ?oz scenario_request] h1
  have a0: "sleepers (apply_action scenario_request (GetZipReq ''t1'') ?old)
        = sleepers ?old @ [(''t1'', clock ?old + 60)]"
    and a: "get_zip ''t1'' (tasks (run scenario_request
        (GetZipReq ''t1'' # replicate 60 Tick @ [CleanupWake ''t1'']) ?old)) = NotFound"
    by blast+
  from a0 have a': "sleepers (apply_action scenario_request (GetZipReq ''t1'') ?old) = [(''t1'', 60)]"
    unfolding h1' by simp
  from eviction_follows_retrieval [of "''t1''" ?late _ _ scenario_request 60] h2
  have b: "get_zip ''t1'' (tasks (apply_action scenario_request (CleanupWake ''t1'') ?late)) = NotFound"
    by blast
  from eviction_follows_retrieval [of "''t1''" ?fetched _ _ scenario_request 60 ?mid] h4 h5 h6
  have c: "get_zip ''t1'' (tasks (run scenario_request (?mid @ [CleanupWake ''t1'']) ?fetched)) = NotFound"
    by blast
  from eviction_follows_retrieval [of "''t1''" "idle_system Map.empty" _ _ other_request _ _ ?quiet] h8
  have d: "get_zip ''t1'' (tasks (run other_request ?quiet (idle_system Map.empty))) = NotFound"
    by blast
  from eviction_follows_retrieval [of _ ?late _ _ scenario_request _ _
      "[Tick, CleanupWake ''t1'', CancelReq ''t1'', GenStep]"] h3
  have "set (sleepers (run scenario_request [Tick, CleanupWake ''t1'', CancelReq ''t1'', GenStep] ?late))
     \<subseteq> set (sleepers ?late)" by blast
  then have e: "set (sleepers (run scenario_request [Tick, CleanupWake ''t1'', CancelReq ''t1'', GenStep] ?late))
     \<subseteq> {(''t1'', 60)}" by (simp del: run.simps)
  from h1 a' a b h7 c d e show ?thesis by blast
qed


end
